theory Spec2Isabelle
  imports Complex_Main "HOL-Library.AList"
begin

section \<open>Values, errors and effects\<close>

text \<open>
  Record ids are JavaScript strings (they are property names of the \<open>results\<close> hash).
  A sort value is what a pair \<open>[id, value]\<close> of \<open>sort_pairs\<close> carries in its second
  slot: the id itself for the natural sort, a number or a string read from
  \<open>idx_data._sorters\<close> otherwise, \<open>undefined\<close> when the sorter has no entry.
  Numbers are finite reals (no \<open>NaN\<close>, no infinities).

  A hash is a function from keys to optional values, or an association list where the
  order of its keys is read. One key has no special treatment in the model:
  \<open>__proto__\<close>, under which an assignment \<open>h[k] = x\<close> stores no property. The
  hashes and pairs that the indexer hands to a view are taken not to hold it; a record of
  that id is then never a hit, and the id reaches no hash of the view.
\<close>

type_synonym record_id = string

datatype jsval = JUndefined | JNum real | JStr string

type_synonym pair = "record_id \<times> jsval"

type_synonym comparator_fn = "pair \<Rightarrow> pair \<Rightarrow> real"

text \<open>The only exception the three source files can raise by themselves: a property
  read on \<open>undefined\<close> or \<open>null\<close>.\<close>

datatype js_error = TypeError

text \<open>
  A slot of the \<open>record_map\<close> hash of \<open>notifyChange\<close> and \<open>notifyVisible\<close>: the
  number \<open>1\<close> written while the ids are collected, the record body copied back after the
  load, or \<open>undefined\<close> for a key that was never written.
\<close>

datatype 'r slot = Absent | Marked | Loaded 'r

text \<open>The second argument of \<open>emit\<close>.\<close>

datatype 'r payload =
    ChangeData "'r slot list" nat
  | SummaryData "(string \<times> nat) list"
  | Message string
  | NoData

text \<open>
  What an operation does to the outside, in program order: a call \<open>sub.emit(name, data)\<close>
  on the subscriber with the given id, a call of \<open>logError(code, msg)\<close>, and the two
  storage requests whose completion the views wait for. Debug logging is left out.
\<close>

datatype 'r effect =
    Emit string string "'r payload"
  | LogError string string
  | GetRecords string "record_id list"
  | GetFieldSummary string

text \<open>An operation either runs to its end or is left by an exception, after the
  effects listed.\<close>

datatype 'r outcome = Done "'r effect list" | Thrown "'r effect list" js_error

fun effects_of :: "'r outcome \<Rightarrow> 'r effect list" where
  "effects_of (Done es) = es"
| "effects_of (Thrown es e) = es"

fun after_effect :: "'r effect \<Rightarrow> 'r outcome \<Rightarrow> 'r outcome" where
  "after_effect x (Done es) = Done (x # es)"
| "after_effect x (Thrown es e) = Thrown (x # es) e"

section \<open>The storage engine and the JavaScript built-ins\<close>

text \<open>
  The indexer and the key-value store are external. Every asynchronous call is modelled
  by the value its callback receives (\<open>Inl err\<close> for an error). An operation of a view
  is modelled together with the callbacks it starts: the answer is taken to arrive before
  anything else touches the view. What a callback does when a write has come in between
  is said by applying its own definition (\<open>load_and_distribute\<close> below) to the later
  state. The index schema \<open>this.index\<close> is handed through unchanged to every call, so
  the functions below are taken as already applied to it.

  \<open>searchRecords\<close> yields the result hash as its properties in enumeration order;
  \<open>sortRecords\<close> yields \<open>(sorted_ids, sort_pairs, comparator)\<close>. The last three
  fields stand for built-ins: \<open>parseFloat(x) - parseFloat(y)\<close>,
  \<open>x.toString().localeCompare(y)\<close> and the conversion of a string to a number that
  \<open>!=\<close> applies (\<open>None\<close> for \<open>NaN\<close>).
\<close>

record 'd idx_data =
  sorters :: "string \<rightharpoonup> jsval"
  idx_fields :: 'd

record ('q, 'd, 'r) storage =
  basePath :: string
  searchRecords :: "'q \<Rightarrow> string + (record_id \<times> nat) list"
  sortRecords :: "(record_id \<times> nat) list \<Rightarrow> string \<Rightarrow> real
                    \<Rightarrow> string + (record_id list \<times> pair list \<times> comparator_fn)"
  searchSingle :: "'q \<Rightarrow> record_id \<Rightarrow> 'd idx_data \<Rightarrow> (record_id \<rightharpoonup> nat)"
  getMulti :: "string list \<Rightarrow> string + 'r list"
  getFieldSummary :: "string \<Rightarrow> string + (string \<times> nat) list"
  parseFloat_diff :: "jsval \<Rightarrow> jsval \<Rightarrow> real"
  localeCompare :: "jsval \<Rightarrow> jsval \<Rightarrow> real"
  toNumber :: "string \<Rightarrow> real option"

text \<open>\<open>Unbase.getRecords\<close>: one storage path per id, then a single \<open>getMulti\<close>.\<close>

definition getRecords ::
  "('q, 'd, 'r) storage \<Rightarrow> string \<Rightarrow> record_id list \<Rightarrow> string + 'r list" where
  "getRecords env index_key record_ids =
     getMulti env
       (map (\<lambda>record_id. basePath env @ ''/records/'' @ index_key @ ''/'' @ record_id)
          record_ids)"

text \<open>Reading a property of a hash: \<open>undefined\<close> when it is not there.\<close>

definition js_get :: "(string \<rightharpoonup> jsval) \<Rightarrow> string \<Rightarrow> jsval" where
  "js_get h k = (case h k of None \<Rightarrow> JUndefined | Some v \<Rightarrow> v)"

text \<open>
  \<open>h.hasOwnProperty(k)\<close>. The method is inherited from \<open>Object.prototype\<close>; a
  property named \<open>hasOwnProperty\<close> of the hash itself hides it. The hashes it is called
  on here (\<open>results\<close> and the answer of \<open>_searchSingle\<close>) hold numbers under record
  ids, so with such a key the call is a call of a number, and throws.
\<close>

definition js_hasOwnProperty :: "(string \<rightharpoonup> 'a) \<Rightarrow> string \<Rightarrow> js_error + bool" where
  "js_hasOwnProperty h k =
     (if h ''hasOwnProperty'' \<noteq> None then Inl TypeError else Inr (h k \<noteq> None))"

text \<open>
  \<open>Object.keys(h)\<close>: the keys that are array indices (the decimal numeral, without
  leading zeros, of an integer below \<open>2^32 - 1\<close>) in ascending numeric order, then
  the other keys in the order in which they were added.
\<close>

definition is_digit :: "char \<Rightarrow> bool" where
  "is_digit c = (48 \<le> (of_char c :: nat) \<and> (of_char c :: nat) \<le> 57)"

definition decimal :: "string \<Rightarrow> nat" where
  "decimal s = foldl (\<lambda>n c. 10 * n + (of_char c - 48)) 0 s"

definition array_index :: "string \<Rightarrow> nat option" where
  "array_index k =
     (if k \<noteq> [] \<and> list_all is_digit k \<and> (hd k \<noteq> CHR ''0'' \<or> k = ''0'')
         \<and> decimal k < 4294967295
      then Some (decimal k) else None)"

definition Object_keys :: "(string \<times> 'a) list \<Rightarrow> string list" where
  "Object_keys h =
     sort_key (\<lambda>k. case array_index k of None \<Rightarrow> 0 | Some n \<Rightarrow> n)
        (filter (\<lambda>k. array_index k \<noteq> None) (map fst h))
     @ filter (\<lambda>k. array_index k = None) (map fst h)"

text \<open>The operator \<open>==\<close> on sort values; \<open>!=\<close> is its negation.\<close>

fun js_loose_eq :: "(string \<Rightarrow> real option) \<Rightarrow> jsval \<Rightarrow> jsval \<Rightarrow> bool" where
  "js_loose_eq tn JUndefined JUndefined = True"
| "js_loose_eq tn (JNum a) (JNum b) = (a = b)"
| "js_loose_eq tn (JStr a) (JStr b) = (a = b)"
| "js_loose_eq tn (JNum a) (JStr s) = (tn s = Some a)"
| "js_loose_eq tn (JStr s) (JNum a) = (tn s = Some a)"
| "js_loose_eq tn _ _ = False"

text \<open>
  \<open>Array.prototype.sort(comparator)\<close>: a stable sort. For a consistent comparator every
  stable sort returns the same list, which insertion from the right computes.
\<close>

fun js_insert :: "('a \<Rightarrow> 'a \<Rightarrow> real) \<Rightarrow> 'a \<Rightarrow> 'a list \<Rightarrow> 'a list" where
  "js_insert cmp x [] = [x]"
| "js_insert cmp x (y # ys) =
     (if cmp x y \<le> 0 then x # y # ys else y # js_insert cmp x ys)"

definition js_sort :: "('a \<Rightarrow> 'a \<Rightarrow> real) \<Rightarrow> 'a list \<Rightarrow> 'a list" where
  "js_sort cmp xs = foldr (js_insert cmp) xs []"

text \<open>\<open>xs.splice(i, 1)\<close>, the removed element dropped.\<close>

definition splice1 :: "'a list \<Rightarrow> nat \<Rightarrow> 'a list" where
  "splice1 xs i = take i xs @ drop (Suc i) xs"

section \<open>Subscriber\<close>

text \<open>
  \<open>sub.view\<close> is a back reference; the model keeps the key under which the view is
  registered, and the operations that follow it take the view itself as an argument.
  \<open>offset\<close> and \<open>limit\<close> are natural numbers (\<open>subscribe\<close> replaces a missing
  offset by \<open>0\<close> and a missing or zero limit by \<open>1\<close>).
  Listeners are the handlers registered with \<open>on\<close>, by event name.
\<close>

datatype listener = Noop | Client nat

record subscriber =
  sub_id :: string
  sub_index_key :: string
  offset :: nat
  limit :: nat
  view :: "(string \<times> string) option"
  listeners :: "(string \<times> listener list) list"

text \<open>
  Node's event emitter, which the class library mixes into every class, as far as the
  subscriber uses it: \<open>on\<close> appends a handler, \<open>emit\<close> calls the handlers of the event
  in order, and an \<open>error\<close> event that finds no handler is thrown as an exception,
  which ends the process when nothing catches it.
\<close>

datatype emit_error = UnhandledError string

definition handlers :: "'a subscriber_scheme \<Rightarrow> string \<Rightarrow> listener list" where
  "handlers sub name = (case map_of (listeners sub) name of None \<Rightarrow> [] | Some hs \<Rightarrow> hs)"

definition emitter_on ::
  "string \<Rightarrow> listener \<Rightarrow> 'a subscriber_scheme \<Rightarrow> 'a subscriber_scheme" where
  "emitter_on name h sub =
     sub\<lparr>listeners := AList.update name (handlers sub name @ [h]) (listeners sub)\<rparr>"

definition emitter_emit ::
  "'a subscriber_scheme \<Rightarrow> string \<Rightarrow> string \<Rightarrow> emit_error + listener list" where
  "emitter_emit sub name msg =
     (if name = ''error'' \<and> handlers sub name = []
      then Inl (UnhandledError msg) else Inr (handlers sub name))"

text \<open>The constructor: the options are merged into the object, \<open>id\<close> and \<open>view\<close> start
  as \<open>null\<close> (the id is assigned by \<open>createSubscriber\<close> right after), and the no-op
  handler is attached to \<open>error\<close>.\<close>

record sub_opts =
  opt_index_key :: string
  opt_offset :: nat
  opt_limit :: nat

definition Subscriber_construct :: "sub_opts \<Rightarrow> subscriber" where
  "Subscriber_construct opts =
     emitter_on ''error'' Noop
       \<lparr>sub_id = [], sub_index_key = opt_index_key opts, offset = opt_offset opts,
        limit = opt_limit opts, view = None, listeners = []\<rparr>"

text \<open>
  The loop shared by \<open>Subscriber.notifyChange\<close>, \<open>View.notifyChange\<close> and
  \<open>View.notifyVisible\<close>:
  \<^verbatim>\<open>for (var idx = 0, len = Math.min(limit, sort_pairs.length); idx < len; idx++)
      ... sort_pairs[idx + offset][0] ...\<close>
  Past the end of the array \<open>sort_pairs[idx + offset]\<close> is \<open>undefined\<close> and reading its
  element \<open>0\<close> throws.
\<close>

definition pair_id_at :: "pair list \<Rightarrow> nat \<Rightarrow> js_error + record_id" where
  "pair_id_at sort_pairs i =
     (if i < length sort_pairs then Inr (fst (sort_pairs ! i)) else Inl TypeError)"

fun collect_ids :: "pair list \<Rightarrow> nat \<Rightarrow> nat list \<Rightarrow> js_error + record_id list" where
  "collect_ids sort_pairs off [] = Inr []"
| "collect_ids sort_pairs off (idx # rest) =
     (case pair_id_at sort_pairs (idx + off) of
        Inl e \<Rightarrow> Inl e
      | Inr record_id \<Rightarrow>
          (case collect_ids sort_pairs off rest of
             Inl e \<Rightarrow> Inl e
           | Inr ids \<Rightarrow> Inr (record_id # ids)))"

definition window_ids :: "pair list \<Rightarrow> nat \<Rightarrow> nat \<Rightarrow> js_error + record_id list" where
  "window_ids sort_pairs off lmt =
     collect_ids sort_pairs off [0..<min lmt (length sort_pairs)]"

section \<open>View\<close>

text \<open>
  The fields every view has, then the ones of the search view. \<open>subs\<close> is a hash keyed
  by subscriber id: an association list in insertion order, which is the order in which
  \<open>for (key in subs)\<close> and \<open>Object.keys(subs)\<close> list it, since the ids that
  \<open>createSubscriber\<close> assigns start with the letter \<open>s\<close> and so are no array indices.
  \<open>results\<close>, \<open>sort_pairs\<close> and \<open>comparator\<close> are \<open>null\<close> until the initial
  search has finished.
\<close>

record view_base =
  index_key :: string
  search_id :: string
  subs :: "(string \<times> subscriber) list"

record 'q search_view = view_base +
  query :: 'q
  sort_by :: string
  sort_dir :: real
  sort_type :: string
  results :: "(record_id \<rightharpoonup> nat) option"
  sort_pairs :: "pair list option"
  comparator :: "comparator_fn option"

text \<open>The change state the write path hands to \<open>update\<close>; \<open>changed\<close> maps a field id
  to whether its entry is truthy, and is \<open>None\<close> when the state has no such property.\<close>

record 'd state =
  action :: string
  state_id :: record_id
  idx_data :: "'d idx_data"
  new_record :: bool
  changed :: "(string \<rightharpoonup> bool) option"

text \<open>The registry \<open>Unbase.views\<close>: index key, then search id, to the view object.\<close>

type_synonym 'h registry = "string \<rightharpoonup> (string \<rightharpoonup> 'h)"

definition removeView :: "'h registry \<Rightarrow> 'a view_base_scheme \<Rightarrow> 'h registry" where
  "removeView views v =
     (case views (index_key v) of
        None \<Rightarrow> views
      | Some by_id \<Rightarrow>
          (case by_id (search_id v) of
             None \<Rightarrow> views
           | Some h \<Rightarrow> views(index_key v \<mapsto> by_id(search_id v := None))))"

definition registered :: "'h registry \<Rightarrow> string \<Rightarrow> string \<Rightarrow> bool" where
  "registered views ik sid =
     (case views ik of None \<Rightarrow> False | Some by_id \<Rightarrow> by_id sid \<noteq> None)"

definition broadcast :: "'a view_base_scheme \<Rightarrow> string \<Rightarrow> 'r payload \<Rightarrow> 'r effect list" where
  "broadcast v name thingy = map (\<lambda>(key, sub). Emit (sub_id sub) name thingy) (subs v)"

definition destroy ::
  "'a view_base_scheme \<Rightarrow> 'h registry \<Rightarrow> 'h registry \<times> 'r effect list" where
  "destroy v views = (removeView views v, broadcast v ''destroy'' NoData)"

definition removeSubscriber ::
  "'a view_base_scheme \<Rightarrow> 'h registry \<Rightarrow> 'b subscriber_scheme
     \<Rightarrow> 'a view_base_scheme \<times> 'h registry \<times> 'r effect list" where
  "removeSubscriber v views sub =
     (let v' = v\<lparr>subs := AList.delete (sub_id sub) (subs v)\<rparr>
      in if length (subs v') = 0
         then (case destroy v' views of (views', es) \<Rightarrow> (v', views', es))
         else (v', views, []))"

text \<open>\<open>Subscriber.unsubscribe\<close>; the argument is the view \<open>this.view\<close> refers to,
  \<open>None\<close> when the subscriber was never attached.\<close>

definition unsubscribe ::
  "'b subscriber_scheme \<Rightarrow> 'a view_base_scheme option \<Rightarrow> 'h registry
     \<Rightarrow> ('a view_base_scheme \<times> 'h registry) option \<times> 'r outcome" where
  "unsubscribe sub this_view views =
     (case this_view of
        None \<Rightarrow> (None, Thrown [] TypeError)
      | Some v \<Rightarrow>
          (case removeSubscriber v views sub of
             (v', views', es) \<Rightarrow> (Some (v', views'), Done es)))"

subsection \<open>Subscriber.notifyChange\<close>

text \<open>The argument \<open>this_view\<close> is the object \<open>this.view\<close> refers to.\<close>

definition Subscriber_notifyChange ::
  "('q, 'd, 'r) storage \<Rightarrow> 'b subscriber_scheme \<Rightarrow> ('q, 'a) search_view_scheme option
     \<Rightarrow> 'r outcome" where
  "Subscriber_notifyChange env sub this_view =
     (case this_view of
        None \<Rightarrow> Thrown [] TypeError
      | Some v \<Rightarrow>
          (case sort_pairs v of
             None \<Rightarrow> Thrown [] TypeError
           | Some sp \<Rightarrow>
               (case window_ids sp (offset sub) (limit sub) of
                  Inl e \<Rightarrow> Thrown [] e
                | Inr sorted_ids \<Rightarrow>
                    (case getRecords env (sub_index_key sub) sorted_ids of
                       Inl err \<Rightarrow>
                         Done [GetRecords (sub_index_key sub) sorted_ids,
                               LogError ''storage'' (''Failed to fetch records: '' @ err),
                               Emit (sub_id sub) ''error''
                                 (Message (''Failed to fetch records: '' @ err))]
                     | Inr records \<Rightarrow>
                         Done [GetRecords (sub_index_key sub) sorted_ids,
                               Emit (sub_id sub) ''change''
                                 (ChangeData (map Loaded records) (length sp))]))))"

subsection \<open>View.notifyChange and View.notifyVisible\<close>

text \<open>
  \<open>record_map\<close> is a hash keyed by record id: an association list in insertion order,
  whose keys \<open>Object.keys\<close> lists with the array indices first.
\<close>

type_synonym 'r record_map = "(record_id \<times> 'r slot) list"

definition mark_ids :: "record_id list \<Rightarrow> 'r record_map \<Rightarrow> 'r record_map" where
  "mark_ids ids record_map = fold (\<lambda>record_id. AList.update record_id Marked) ids record_map"

fun mark_windows ::
  "pair list \<Rightarrow> subscriber list \<Rightarrow> 'r record_map \<Rightarrow> js_error + 'r record_map" where
  "mark_windows sp [] record_map = Inr record_map"
| "mark_windows sp (sub # rest) record_map =
     (case window_ids sp (offset sub) (limit sub) of
        Inl e \<Rightarrow> Inl e
      | Inr ids \<Rightarrow> mark_windows sp rest (mark_ids ids record_map))"

text \<open>\<^verbatim>\<open>for (idx = 0; idx < records.length; idx++) record_map[ record_ids[idx] ] = records[idx];\<close>
  An index past the end of \<open>record_ids\<close> reads \<open>undefined\<close>, which as a property name is
  the string \<open>undefined\<close>.\<close>

definition copy_back :: "record_id list \<Rightarrow> 'r list \<Rightarrow> 'r record_map \<Rightarrow> 'r record_map" where
  "copy_back record_ids records record_map =
     fold (\<lambda>idx. AList.update
                   (if idx < length record_ids then record_ids ! idx else ''undefined'')
                   (Loaded (records ! idx)))
       [0..<length records] record_map"

definition slot_of :: "'r record_map \<Rightarrow> record_id \<Rightarrow> 'r slot" where
  "slot_of record_map record_id =
     (case map_of record_map record_id of None \<Rightarrow> Absent | Some s \<Rightarrow> s)"

fun distribute :: "pair list \<Rightarrow> 'r record_map \<Rightarrow> subscriber list \<Rightarrow> 'r outcome" where
  "distribute sp record_map [] = Done []"
| "distribute sp record_map (sub # rest) =
     (case window_ids sp (offset sub) (limit sub) of
        Inl e \<Rightarrow> Thrown [] e
      | Inr ids \<Rightarrow>
          after_effect
            (Emit (sub_id sub) ''change''
               (ChangeData (map (slot_of record_map) ids) (length sp)))
            (distribute sp record_map rest))"

text \<open>
  The part of both functions from \<open>Object.keys(record_map)\<close> on: the request and its
  callback. \<open>record_map\<close> and \<open>record_ids\<close> are those of the request. \<open>sp\<close> and
  \<open>chosen\<close> are what the callback finds: the array \<open>sort_pairs\<close>, which the view only
  ever changes in place, and the subscribers (\<open>self.subs\<close> read anew in
  \<open>notifyChange\<close>, the objects in \<open>chosen_subs\<close> in \<open>notifyVisible\<close>) with their
  offsets and limits of that moment.
\<close>

definition load_and_distribute ::
  "('q, 'd, 'r) storage \<Rightarrow> string \<Rightarrow> pair list \<Rightarrow> 'r record_map \<Rightarrow> subscriber list
     \<Rightarrow> 'r outcome" where
  "load_and_distribute env ik sp record_map chosen =
     (let record_ids = Object_keys record_map
      in case getRecords env ik record_ids of
           Inl err \<Rightarrow>
             Done [GetRecords ik record_ids,
                   LogError ''storage'' (''Failed to fetch records: '' @ err)]
         | Inr records \<Rightarrow>
             after_effect (GetRecords ik record_ids)
               (distribute sp (copy_back record_ids records record_map) chosen))"

text \<open>Both functions with the answer arriving at once: the callback finds the pairs and
  the subscribers of the request.\<close>

definition notifyChange ::
  "('q, 'd, 'r) storage \<Rightarrow> ('q, 'a) search_view_scheme \<Rightarrow> 'r outcome" where
  "notifyChange env v =
     (if length (subs v) = 0 then Done []
      else (case sort_pairs v of
              None \<Rightarrow> Thrown [] TypeError
            | Some sp \<Rightarrow>
                (case mark_windows sp (map snd (subs v)) [] of
                   Inl e \<Rightarrow> Thrown [] e
                 | Inr record_map \<Rightarrow>
                     load_and_distribute env (index_key v) sp record_map (map snd (subs v)))))"

definition visible_to :: "nat \<Rightarrow> subscriber \<Rightarrow> bool" where
  "visible_to record_idx sub =
     (record_idx \<ge> offset sub \<and> record_idx < offset sub + limit sub)"

definition notifyVisible ::
  "('q, 'd, 'r) storage \<Rightarrow> ('q, 'a) search_view_scheme \<Rightarrow> nat \<Rightarrow> 'r outcome" where
  "notifyVisible env v record_idx =
     (if length (subs v) = 0 then Done []
      else
        (let chosen_subs = filter (visible_to record_idx) (map snd (subs v))
         in case sort_pairs v of
              None \<Rightarrow> (if chosen_subs = [] then Done [] else Thrown [] TypeError)
            | Some sp \<Rightarrow>
                (case mark_windows sp chosen_subs [] of
                   Inl e \<Rightarrow> Thrown [] e
                 | Inr record_map \<Rightarrow>
                     if chosen_subs = [] then Done []
                     else load_and_distribute env (index_key v) sp record_map chosen_subs)))"

subsection \<open>Resorting\<close>

text \<open>\<^verbatim>\<open>for (idx = 0; idx < sort_pairs.length; idx++) results[ sort_pairs[idx][0] ] = idx;\<close>\<close>

fun store_positions_from ::
  "nat \<Rightarrow> pair list \<Rightarrow> (record_id \<rightharpoonup> nat) \<Rightarrow> (record_id \<rightharpoonup> nat)" where
  "store_positions_from idx [] res = res"
| "store_positions_from idx (p # ps) res = store_positions_from (Suc idx) ps (res(fst p \<mapsto> idx))"

definition store_positions :: "pair list \<Rightarrow> (record_id \<rightharpoonup> nat) \<Rightarrow> (record_id \<rightharpoonup> nat)" where
  "store_positions sp res = store_positions_from 0 sp res"

definition resortAndNotify ::
  "('q, 'd, 'r) storage \<Rightarrow> ('q, 'a) search_view_scheme
     \<Rightarrow> ('q, 'a) search_view_scheme \<times> 'r outcome" where
  "resortAndNotify env v =
     (case sort_pairs v of
        None \<Rightarrow> (v, Thrown [] TypeError)
      | Some sp \<Rightarrow>
          (case comparator v of
             None \<Rightarrow> (v, Thrown [] TypeError)
           | Some cmp \<Rightarrow>
               (let v1 = v\<lparr>sort_pairs := Some (js_sort cmp sp)\<rparr>
                in case results v of
                     None \<Rightarrow>
                       (if js_sort cmp sp = [] then (v1, notifyChange env v1)
                        else (v1, Thrown [] TypeError))
                   | Some res \<Rightarrow>
                       (let v2 = v1\<lparr>results := Some (store_positions (js_sort cmp sp) res)\<rparr>
                        in (v2, notifyChange env v2)))))"

definition sort_value_of :: "('q, 'a) search_view_scheme \<Rightarrow> 'd state \<Rightarrow> jsval" where
  "sort_value_of v st =
     (if sort_by v = ''_id'' then JStr (state_id st)
      else js_get (sorters (idx_data st)) (sort_by v))"

definition addRecord ::
  "('q, 'd, 'r) storage \<Rightarrow> ('q, 'a) search_view_scheme \<Rightarrow> 'd state
     \<Rightarrow> ('q, 'a) search_view_scheme \<times> 'r outcome" where
  "addRecord env v st =
     (let record_id = state_id st; sort_value = sort_value_of v st
      in case results v of
           None \<Rightarrow> (v, Thrown [] TypeError)
         | Some res \<Rightarrow>
             (let v1 = v\<lparr>results := Some (res(record_id \<mapsto> 1))\<rparr>
              in case sort_pairs v of
                   None \<Rightarrow> (v1, Thrown [] TypeError)
                 | Some sp \<Rightarrow>
                     resortAndNotify env
                       (v1\<lparr>sort_pairs := Some (sp @ [(record_id, sort_value)])\<rparr>)))"

text \<open>\<open>splice(undefined, 1)\<close> removes the element at index \<open>0\<close>.\<close>

definition removeRecord ::
  "('q, 'd, 'r) storage \<Rightarrow> ('q, 'a) search_view_scheme \<Rightarrow> 'd state
     \<Rightarrow> ('q, 'a) search_view_scheme \<times> 'r outcome" where
  "removeRecord env v st =
     (let record_id = state_id st
      in case results v of
           None \<Rightarrow> (v, Thrown [] TypeError)
         | Some res \<Rightarrow>
             (let sort_idx = (case res record_id of None \<Rightarrow> 0 | Some i \<Rightarrow> i);
                  v1 = v\<lparr>results := Some (res(record_id := None))\<rparr>
              in case sort_pairs v of
                   None \<Rightarrow> (v1, Thrown [] TypeError)
                 | Some sp \<Rightarrow>
                     resortAndNotify env (v1\<lparr>sort_pairs := Some (splice1 sp sort_idx)\<rparr>)))"

subsection \<open>View.update\<close>

text \<open>\<^verbatim>\<open>var old_hit = this.results.hasOwnProperty(record_id);\<close> and
  \<^verbatim>\<open>var new_hit = temp_results.hasOwnProperty(record_id);\<close>\<close>

definition old_hit :: "('q, 'a) search_view_scheme \<Rightarrow> 'd state \<Rightarrow> js_error + bool" where
  "old_hit v st =
     (case results v of
        None \<Rightarrow> Inl TypeError
      | Some res \<Rightarrow> js_hasOwnProperty res (state_id st))"

definition new_hit ::
  "('q, 'd, 'r) storage \<Rightarrow> ('q, 'a) search_view_scheme \<Rightarrow> 'd state \<Rightarrow> js_error + bool" where
  "new_hit env v st =
     (let temp_results = searchSingle env (query v) (state_id st) (idx_data st)
      in js_hasOwnProperty temp_results (state_id st))"

text \<open>The branch for a record that stays in the set while the view sorts by a sorter:
  \<open>record_idx\<close> is \<open>this.results[record_id]\<close>.\<close>

definition update_sorted ::
  "('q, 'd, 'r) storage \<Rightarrow> ('q, 'a) search_view_scheme \<Rightarrow> 'd state \<Rightarrow> nat
     \<Rightarrow> ('q, 'a) search_view_scheme \<times> 'r outcome" where
  "update_sorted env v st record_idx =
     (case sort_pairs v of
        None \<Rightarrow> (v, Thrown [] TypeError)
      | Some sp \<Rightarrow>
          if record_idx < length sp then
            (let old_sort_value = snd (sp ! record_idx);
                 new_sort_value = js_get (sorters (idx_data st)) (sort_by v)
             in if \<not> js_loose_eq (toNumber env) new_sort_value old_sort_value
                then resortAndNotify env
                       (v\<lparr>sort_pairs :=
                            Some (sp[record_idx := (fst (sp ! record_idx), new_sort_value)])\<rparr>)
                else (v, notifyVisible env v record_idx))
          else (v, Thrown [] TypeError))"

definition update ::
  "('q, 'd, 'r) storage \<Rightarrow> ('q, 'a) search_view_scheme \<Rightarrow> 'd state
     \<Rightarrow> ('q, 'a) search_view_scheme \<times> 'r outcome" where
  "update env v st =
     (if action st = ''insert'' then
        (case old_hit v st of
           Inl e \<Rightarrow> (v, Thrown [] e)
         | Inr was_hit \<Rightarrow>
             (case new_hit env v st of
                Inl e \<Rightarrow> (v, Thrown [] e)
              | Inr is_hit \<Rightarrow>
                  if \<not> was_hit \<and> is_hit then addRecord env v st
                  else if was_hit \<and> \<not> is_hit then removeRecord env v st
                  else if was_hit \<and> is_hit \<and> sort_by v \<noteq> ''_id'' then
                    (case results v of
                       None \<Rightarrow> (v, Thrown [] TypeError)
                     | Some res \<Rightarrow>
                         (case res (state_id st) of
                            None \<Rightarrow> (v, Done [])
                          | Some record_idx \<Rightarrow> update_sorted env v st record_idx))
                  else if was_hit \<and> is_hit then
                    (case results v of
                       None \<Rightarrow> (v, Thrown [] TypeError)
                     | Some res \<Rightarrow>
                         (case res (state_id st) of
                            None \<Rightarrow> (v, Done [])
                          | Some record_idx \<Rightarrow> (v, notifyVisible env v record_idx)))
                  else (v, Done [])))
      else if action st = ''delete'' then
        (case old_hit v st of
           Inl e \<Rightarrow> (v, Thrown [] e)
         | Inr was_hit \<Rightarrow> if was_hit then removeRecord env v st else (v, Done []))
      else (v, Done []))"

subsection \<open>The initial search\<close>

text \<open>
  \<open>init\<close> sets \<open>subs\<close> to the empty hash and starts the search; \<open>search\<close> below is the
  search with its callbacks, which run some time after \<open>init\<close> has returned, so that
  subscribers may have been added in between.
\<close>

definition View_init :: "string \<Rightarrow> string \<Rightarrow> 'q \<Rightarrow> string \<Rightarrow> real \<Rightarrow> string \<Rightarrow> 'q search_view" where
  "View_init ik sid q sb sd stype =
     \<lparr>index_key = ik, search_id = sid, subs = [], query = q, sort_by = sb, sort_dir = sd,
      sort_type = stype, results = None, sort_pairs = None, comparator = None\<rparr>"

definition search_failed ::
  "('q, 'a) search_view_scheme \<Rightarrow> 'h registry \<Rightarrow> string
     \<Rightarrow> ('q, 'a) search_view_scheme \<times> 'h registry \<times> 'r outcome" where
  "search_failed v views err =
     (let err_msg = ''Initial search failed: '' @ err
      in case destroy v views of
           (views', es) \<Rightarrow>
             (v, views',
              Done (LogError ''search'' err_msg # broadcast v ''error'' (Message err_msg) @ es)))"

definition finish ::
  "('q, 'd, 'r) storage \<Rightarrow> ('q, 'a) search_view_scheme \<Rightarrow> 'h registry
     \<Rightarrow> (record_id \<times> nat) list
     \<Rightarrow> string + (record_id list \<times> pair list \<times> comparator_fn)
     \<Rightarrow> ('q, 'a) search_view_scheme \<times> 'h registry \<times> 'r outcome" where
  "finish env v views hash r =
     (case r of
        Inl err \<Rightarrow> search_failed v views err
      | Inr (sorted_ids, sp, cmp) \<Rightarrow>
          (let v' = v\<lparr>results := Some (store_positions sp (map_of hash)),
                      sort_pairs := Some sp, comparator := Some cmp\<rparr>
           in (v', views, notifyChange env v')))"

definition id_comparator ::
  "('q, 'd, 'r) storage \<Rightarrow> ('q, 'a) search_view_scheme \<Rightarrow> comparator_fn" where
  "id_comparator env v =
     (if sort_type v = ''number''
      then (\<lambda>a b. parseFloat_diff env (snd a) (snd b) * sort_dir v)
      else (\<lambda>a b. localeCompare env (snd a) (snd b) * sort_dir v))"

definition search ::
  "('q, 'd, 'r) storage \<Rightarrow> ('q, 'a) search_view_scheme \<Rightarrow> 'h registry
     \<Rightarrow> ('q, 'a) search_view_scheme \<times> 'h registry \<times> 'r outcome" where
  "search env v views =
     (case searchRecords env (query v) of
        Inl err \<Rightarrow> search_failed v views err
      | Inr hash \<Rightarrow>
          if sort_by v = ''_id'' then
            finish env v views hash
              (Inr ([],
                    js_sort (id_comparator env v)
                      (map (\<lambda>(record_id, x). (record_id, JStr record_id)) hash),
                    id_comparator env v))
          else finish env v views hash (sortRecords env hash (sort_by v) (sort_dir v)))"

subsection \<open>View.addSubscriber\<close>

definition addSubscriber ::
  "('q, 'd, 'r) storage \<Rightarrow> ('q, 'a) search_view_scheme \<Rightarrow> subscriber
     \<Rightarrow> ('q, 'a) search_view_scheme \<times> subscriber \<times> 'r outcome" where
  "addSubscriber env v sub =
     (let sub' = sub\<lparr>view := Some (index_key v, search_id v)\<rparr>;
          v' = v\<lparr>subs := AList.update (sub_id sub) sub' (subs v)\<rparr>
      in (v', sub',
          if sort_pairs v' \<noteq> None then Subscriber_notifyChange env sub' (Some v')
          else Done []))"

section \<open>SummaryView\<close>

record summary_view = view_base +
  field_id :: string
  summary_values :: "(string \<times> nat) list option"

definition Summary_notifyChange ::
  "('q, 'd, 'r) storage \<Rightarrow> 'a summary_view_scheme
     \<Rightarrow> 'a summary_view_scheme \<times> 'r effect list" where
  "Summary_notifyChange env sv =
     (case getFieldSummary env (field_id sv) of
        Inl err \<Rightarrow>
          (sv, [GetFieldSummary (field_id sv),
                LogError ''summary'' (''Failed to load field summary: '' @ err)])
      | Inr vals \<Rightarrow>
          (sv\<lparr>summary_values := Some vals\<rparr>,
           GetFieldSummary (field_id sv) # broadcast sv ''change'' (SummaryData vals)))"

definition Summary_search ::
  "('q, 'd, 'r) storage \<Rightarrow> 'a summary_view_scheme
     \<Rightarrow> 'a summary_view_scheme \<times> 'r effect list" where
  "Summary_search env sv = Summary_notifyChange env sv"

definition field_changed :: "'a summary_view_scheme \<Rightarrow> 'd state \<Rightarrow> bool" where
  "field_changed sv st =
     (case changed st of None \<Rightarrow> False | Some c \<Rightarrow> c (field_id sv) = Some True)"

definition Summary_update ::
  "('q, 'd, 'r) storage \<Rightarrow> 'a summary_view_scheme \<Rightarrow> 'd state
     \<Rightarrow> 'a summary_view_scheme \<times> 'r effect list" where
  "Summary_update env sv st =
     (if new_record st \<or> action st = ''delete'' then Summary_notifyChange env sv
      else if field_changed sv st then Summary_notifyChange env sv
      else (sv, []))"

definition Summary_addSubscriber ::
  "'a summary_view_scheme \<Rightarrow> subscriber
     \<Rightarrow> 'a summary_view_scheme \<times> subscriber \<times> 'r effect list" where
  "Summary_addSubscriber sv sub =
     (let sub' = sub\<lparr>view := Some (index_key sv, search_id sv)\<rparr>;
          sv' = sv\<lparr>subs := AList.update (sub_id sub) sub' (subs sv)\<rparr>
      in (sv', sub',
          case summary_values sv' of
            None \<Rightarrow> []
          | Some vals \<Rightarrow> [Emit (sub_id sub) ''change'' (SummaryData vals)]))"

section \<open>Notions used in the statements\<close>

text \<open>The view as \<open>finish\<close> leaves it after a search that gave the hash \<open>hash\<close>, the
  pairs \<open>sp\<close> and the comparator \<open>cmp\<close>.\<close>

definition loaded_view ::
  "('q, 'a) search_view_scheme \<Rightarrow> (record_id \<times> nat) list \<Rightarrow> pair list \<Rightarrow> comparator_fn
     \<Rightarrow> ('q, 'a) search_view_scheme" where
  "loaded_view v hash sp cmp =
     v\<lparr>results := Some (store_positions sp (map_of hash)), sort_pairs := Some sp,
       comparator := Some cmp\<rparr>"

text \<open>The initial search succeeds with hash, pairs and comparator.\<close>

definition search_yields ::
  "('q, 'd, 'r) storage \<Rightarrow> ('q, 'a) search_view_scheme \<Rightarrow> (record_id \<times> nat) list
     \<Rightarrow> pair list \<Rightarrow> comparator_fn \<Rightarrow> bool" where
  "search_yields env v hash sp cmp =
     (searchRecords env (query v) = Inr hash
      \<and> (if sort_by v = ''_id''
         then sp = js_sort (id_comparator env v)
                     (map (\<lambda>(record_id, x). (record_id, JStr record_id)) hash)
              \<and> cmp = id_comparator env v
         else \<exists>sorted_ids. sortRecords env hash (sort_by v) (sort_dir v)
                             = Inr (sorted_ids, sp, cmp)))"

text \<open>The subscribers a trace sends \<open>change\<close> to, in order, and whether it logs an error.\<close>

fun change_targets :: "'r effect list \<Rightarrow> string list" where
  "change_targets [] = []"
| "change_targets (Emit sid name d # es) =
     (if name = ''change'' then sid # change_targets es else change_targets es)"
| "change_targets (x # es) = change_targets es"

fun logs_error :: "'r effect list \<Rightarrow> bool" where
  "logs_error [] = False"
| "logs_error (LogError code msg # es) = True"
| "logs_error (x # es) = logs_error es"

text \<open>The window of a subscriber as the specification words it: the slice
  \<open>sort_pairs[offset : min(offset + limit, len)]\<close>.\<close>

definition window_slice :: "pair list \<Rightarrow> nat \<Rightarrow> nat \<Rightarrow> pair list" where
  "window_slice sp off lmt = take (min (off + lmt) (length sp) - off) (drop off sp)"

text \<open>A window the loop of the notify functions can read: the loop does not run, or
  \<open>offset + min(limit, len) \<le> len\<close>.\<close>

definition window_fits :: "pair list \<Rightarrow> 'b subscriber_scheme \<Rightarrow> bool" where
  "window_fits sp sub =
     (min (limit sub) (length sp) = 0 \<or> offset sub + min (limit sub) (length sp) \<le> length sp)"

text \<open>The ids of the records in the windows of the given subscribers.\<close>

definition window_records :: "pair list \<Rightarrow> 'b subscriber_scheme list \<Rightarrow> record_id set" where
  "window_records sp ss =
     (\<Union>sub \<in> set ss. fst ` set (window_slice sp (offset sub) (limit sub)))"

text \<open>The \<open>change\<close> event the specification promises a subscriber, for a store in which
  the body kept under a path is \<open>body path\<close>: the bodies of the window slice, in order,
  with the size of the whole result set.\<close>

definition expected_change ::
  "('q, 'd, 'r) storage \<Rightarrow> (string \<Rightarrow> 'r) \<Rightarrow> string \<Rightarrow> pair list \<Rightarrow> 'b subscriber_scheme
     \<Rightarrow> 'r effect" where
  "expected_change env body ik sp sub =
     Emit (sub_id sub) ''change''
       (ChangeData
          (map (\<lambda>p. Loaded (body (basePath env @ ''/records/'' @ ik @ ''/'' @ fst p)))
             (window_slice sp (offset sub) (limit sub)))
          (length sp))"

text \<open>
  A comparator the sort can rely on: of any two elements one is not after the other, and
  ``not after'' is transitive. (A comparator that answers \<open>NaN\<close>, as the numeric one does
  on an id that is not a number, is not of this kind.)
\<close>

definition consistent :: "('a \<Rightarrow> 'a \<Rightarrow> real) \<Rightarrow> bool" where
  "consistent cmp =
     ((\<forall>a b. cmp a b \<le> 0 \<or> cmp b a \<le> 0)
      \<and> (\<forall>a b c. cmp a b \<le> 0 \<and> cmp b c \<le> 0 \<longrightarrow> cmp a c \<le> 0))"

text \<open>The invariant of a view between updates.\<close>

definition view_inv :: "('q, 'a) search_view_scheme \<Rightarrow> bool" where
  "view_inv v =
     (case results v of
        None \<Rightarrow> False
      | Some res \<Rightarrow>
          (case sort_pairs v of
             None \<Rightarrow> False
           | Some sp \<Rightarrow>
               (case comparator v of
                  None \<Rightarrow> False
                | Some cmp \<Rightarrow>
                    sorted_wrt (\<lambda>a b. cmp a b \<le> 0) sp
                    \<and> (\<forall>i < length sp. res (fst (sp ! i)) = Some i)
                    \<and> dom res = fst ` set sp)))"

section \<open>Concrete inputs\<close>

text \<open>
  A small index for the examples: record bodies are strings, a stored body is the path it
  is stored under, a query is \<open>unit\<close>, and the index data of a record says whether the
  record matches the query. Sort values are compared through a numeric key.
\<close>

fun key_of :: "jsval \<Rightarrow> real" where
  "key_of (JNum x) = x"
| "key_of (JStr s) = real (length s)"
| "key_of JUndefined = 0"

definition cmp_key :: comparator_fn where
  "cmp_key a b = key_of (snd a) - key_of (snd b)"

definition env_ok :: "(unit, bool, string) storage" where
  "env_ok =
     \<lparr>basePath = ''unbase'',
      searchRecords = (\<lambda>q. Inr [(''bb'', 1), (''a'', 1), (''ccc'', 1)]),
      sortRecords = (\<lambda>hash sb sd. Inl ''Cannot find sorter''),
      searchSingle = (\<lambda>q rid d. if idx_fields d then [rid \<mapsto> 1] else Map.empty),
      getMulti = (\<lambda>paths. Inr paths),
      getFieldSummary = (\<lambda>f. Inr [(''open'', 2), (''closed'', 11)]),
      parseFloat_diff = (\<lambda>x y. key_of x - key_of y),
      localeCompare = (\<lambda>x y. key_of x - key_of y),
      toNumber = (\<lambda>s. None)\<rparr>"

definition env_fail :: "(unit, bool, string) storage" where
  "env_fail =
     env_ok\<lparr>searchRecords := (\<lambda>q. Inl ''io''), getMulti := (\<lambda>paths. Inl ''io''),
            getFieldSummary := (\<lambda>f. Inl ''io'')\<rparr>"

definition sub_at :: "string \<Rightarrow> nat \<Rightarrow> nat \<Rightarrow> subscriber" where
  "sub_at sid off lmt =
     \<lparr>sub_id = sid, sub_index_key = ''myapp'', offset = off, limit = lmt,
      view = Some (''myapp'', ''q1''), listeners = [(''error'', [Noop])]\<rparr>"

definition pairs3 :: "pair list" where
  "pairs3 = [(''a'', JNum 1), (''bb'', JNum 2), (''ccc'', JNum 3)]"

definition view3 :: "(string \<times> subscriber) list \<Rightarrow> unit search_view" where
  "view3 ss =
     \<lparr>index_key = ''myapp'', search_id = ''q1'', subs = ss, query = (),
      sort_by = ''created'', sort_dir = 1, sort_type = ''number'',
      results = Some [''a'' \<mapsto> 0, ''bb'' \<mapsto> 1, ''ccc'' \<mapsto> 2],
      sort_pairs = Some pairs3, comparator = Some cmp_key\<rparr>"

definition state_of :: "string \<Rightarrow> record_id \<Rightarrow> bool \<Rightarrow> real \<Rightarrow> bool state" where
  "state_of act rid hit created =
     \<lparr>action = act, state_id = rid,
      idx_data = \<lparr>sorters = [''created'' \<mapsto> JNum created], idx_fields = hit\<rparr>,
      new_record = False, changed = Some Map.empty\<rparr>"

definition views1 :: "unit registry" where
  "views1 = [''myapp'' \<mapsto> [''q1'' \<mapsto> (), ''q2'' \<mapsto> ()]]"

definition summary1 :: "(string \<times> subscriber) list \<Rightarrow> summary_view" where
  "summary1 ss =
     \<lparr>index_key = ''myapp'', search_id = ''q2'', subs = ss, field_id = ''status'',
      summary_values = None\<rparr>"

section \<open>Properties\<close>

subsection \<open>The error channel of a subscriber\<close>

lemmas Object_keys_eval = Object_keys_def array_index_def is_digit_def decimal_def

lemma handlers_emitter_on:
  "handlers (emitter_on name h sub) m =
     (if m = name then handlers sub name @ [h] else handlers sub m)"
  by (simp add: handlers_def emitter_on_def update_conv')

lemma noop_kept:
  "Noop \<in> set (handlers sub ''error'')
   \<Longrightarrow> Noop \<in> set (handlers (fold (\<lambda>(name, h). emitter_on name h) regs sub) ''error'')"
proof (induction regs arbitrary: sub)
  case Nil
  then show ?case by simp
next
  case (Cons r regs)
  obtain name h where r: "r = (name, h)" by (cases r)
  have "Noop \<in> set (handlers (emitter_on name h sub) ''error'')"
    using Cons.prems by (auto simp: handlers_emitter_on)
  from Cons.IH [OF this] show ?case by (simp add: r)
qed

lemma handlers_construct: "handlers (Subscriber_construct opts) ''error'' = [Noop]"
  by (simp add: Subscriber_construct_def handlers_emitter_on) (simp add: handlers_def)

text \<open>
  C8. A subscriber leaves its constructor with the no-op handler on \<open>error\<close>, so that
  emitting \<open>error\<close> calls that handler and throws nothing; the same holds after any
  further handlers have been registered with \<open>on\<close>.
\<close>

theorem error_listener_default:
  "listeners (Subscriber_construct opts) = [(''error'', [Noop])]
   \<and> emitter_emit (Subscriber_construct opts) ''error'' msg = Inr [Noop]
   \<and> (\<exists>hs. emitter_emit (fold (\<lambda>(name, h). emitter_on name h) regs (Subscriber_construct opts))
               ''error'' msg = Inr hs \<and> Noop \<in> set hs)"
proof -
  have a: "listeners (Subscriber_construct opts) = [(''error'', [Noop])]"
    by (simp add: Subscriber_construct_def emitter_on_def handlers_def)
  have b: "emitter_emit (Subscriber_construct opts) ''error'' msg = Inr [Noop]"
    by (simp add: emitter_emit_def handlers_construct)
  have "Noop \<in> set (handlers (fold (\<lambda>(name, h). emitter_on name h) regs
                                (Subscriber_construct opts)) ''error'')"
    by (rule noop_kept) (simp add: handlers_construct)
  then have c: "\<exists>hs. emitter_emit (fold (\<lambda>(name, h). emitter_on name h) regs
                       (Subscriber_construct opts)) ''error'' msg = Inr hs \<and> Noop \<in> set hs"
    by (auto simp: emitter_emit_def)
  from a b c show ?thesis by blast
qed

theorem error_listener_default_witness:
  "emitter_emit
     (Subscriber_construct \<lparr>opt_index_key = ''myapp'', opt_offset = 0, opt_limit = 10\<rparr>)
     ''error'' ''Failed to fetch records: io'' = Inr [Noop]"
  using error_listener_default
    [of "\<lparr>opt_index_key = ''myapp'', opt_offset = 0, opt_limit = 10\<rparr>"
        "''Failed to fetch records: io''" "[]"]
  by simp

subsection \<open>Writes that do not concern a view\<close>

text \<open>
  C4. A write to a record that is not in \<open>results\<close>, and that for an insert does not
  match the query of the view (for a delete nothing more is asked), makes \<open>update\<close>
  return the view as it was, with no effect at all, so no \<open>change\<close> event. The call
  runs to its end unless \<open>hasOwnProperty\<close> is hidden by a key of \<open>results\<close> or,
  for an insert, of the answer of \<open>_searchSingle\<close>; then it throws, again with the
  view as it was and no effect.
\<close>

theorem update_unconcerned:
  assumes "results v = Some res" and "res (state_id st) = None"
    and "(action st = ''insert'' \<and> new_hit env v st \<noteq> Inr True) \<or> action st = ''delete''"
  shows "update env v st
           = (v, if old_hit v st = Inl TypeError
                    \<or> (action st = ''insert'' \<and> new_hit env v st = Inl TypeError)
                 then Thrown [] TypeError else Done [])
       \<and> fst (update env v st) = v
       \<and> effects_of (snd (update env v st)) = []
       \<and> (old_hit v st = Inl TypeError) = (res ''hasOwnProperty'' \<noteq> None)
       \<and> (new_hit env v st = Inl TypeError)
           = (searchSingle env (query v) (state_id st) (idx_data st) ''hasOwnProperty'' \<noteq> None)"
proof -
  have o: "old_hit v st = (if res ''hasOwnProperty'' \<noteq> None then Inl TypeError else Inr False)"
    using assms(1,2) by (simp add: old_hit_def js_hasOwnProperty_def)
  have n: "(new_hit env v st = Inl TypeError)
           = (searchSingle env (query v) (state_id st) (idx_data st) ''hasOwnProperty'' \<noteq> None)"
    by (simp add: new_hit_def js_hasOwnProperty_def Let_def)
  have u: "update env v st
           = (v, if old_hit v st = Inl TypeError
                    \<or> (action st = ''insert'' \<and> new_hit env v st = Inl TypeError)
                 then Thrown [] TypeError else Done [])"
  proof (cases "new_hit env v st")
    case (Inl e)
    then show ?thesis using assms(3) o by (cases e) (auto simp: update_def)
  next
    case (Inr b)
    then show ?thesis using assms(3) o by (auto simp: update_def)
  qed
  from u o n show ?thesis by auto
qed

theorem update_unconcerned_witness:
  "update env_ok (view3 [(''s1'', sub_at ''s1'' 0 2)]) (state_of ''insert'' ''zz'' False 5)
     = (view3 [(''s1'', sub_at ''s1'' 0 2)], Done [])
   \<and> update env_ok (view3 [(''s1'', sub_at ''s1'' 0 2)]) (state_of ''delete'' ''zz'' True 5)
     = (view3 [(''s1'', sub_at ''s1'' 0 2)], Done [])"
proof -
  let ?v = "view3 [(''s1'', sub_at ''s1'' 0 2)]"
  let ?res = "[''a'' \<mapsto> 0, ''bb'' \<mapsto> 1, ''ccc'' \<mapsto> 2] :: record_id \<rightharpoonup> nat"
  have r: "results ?v = Some ?res" by (simp add: view3_def)
  have z: "?res (state_id (state_of act ''zz'' hit c)) = None" for act hit c
    by (simp add: state_of_def)
  have o: "old_hit ?v (state_of act ''zz'' hit c) = Inr False" for act hit c
    by (simp add: old_hit_def js_hasOwnProperty_def view3_def state_of_def)
  have n: "new_hit env_ok ?v (state_of ''insert'' ''zz'' False 5) = Inr False"
    by (simp add: new_hit_def js_hasOwnProperty_def state_of_def env_ok_def)
  have a: "(action (state_of ''insert'' ''zz'' False 5) = ''insert''
             \<and> new_hit env_ok ?v (state_of ''insert'' ''zz'' False 5) \<noteq> Inr True)
           \<or> action (state_of ''insert'' ''zz'' False 5) = ''delete''"
    by (simp add: n) (simp add: state_of_def)
  have b: "(action (state_of ''delete'' ''zz'' True 5) = ''insert''
             \<and> new_hit env_ok ?v (state_of ''delete'' ''zz'' True 5) \<noteq> Inr True)
           \<or> action (state_of ''delete'' ''zz'' True 5) = ''delete''"
    by (simp add: state_of_def)
  have d: "action (state_of ''delete'' ''zz'' True 5) \<noteq> ''insert''" by (simp add: state_of_def)
  from update_unconcerned [OF r z a, THEN conjunct1]
  have A: "update env_ok ?v (state_of ''insert'' ''zz'' False 5) = (?v, Done [])"
    by (simp add: o n)
  from update_unconcerned [OF r z b, THEN conjunct1]
  have B: "update env_ok ?v (state_of ''delete'' ''zz'' True 5) = (?v, Done [])"
    by (simp add: o d)
  from A B show ?thesis by simp
qed

subsection \<open>The summary view\<close>

text \<open>
  C5, as the claim states it, fails: on a delete state, when \<open>getFieldSummary\<close> reports
  an error, the summary is requested but nothing is broadcast and \<open>values\<close> stay as they
  were.
\<close>

theorem summary_update_counterexample:
  "action (state_of ''delete'' ''a'' True 1) = ''delete''
   \<and> Summary_update env_fail (summary1 [(''s1'', sub_at ''s1'' 0 2)])
         (state_of ''delete'' ''a'' True 1)
       = (summary1 [(''s1'', sub_at ''s1'' 0 2)],
          [GetFieldSummary ''status'',
           LogError ''summary'' ''Failed to load field summary: io''])"
  by (simp add: Summary_update_def Summary_notifyChange_def state_of_def env_fail_def
      env_ok_def summary1_def)

text \<open>
  C5, amended. \<open>Summary_update\<close> requests the field summary exactly when the action is
  \<open>delete\<close>, or \<open>new_record\<close> is set, or \<open>changed[field_id]\<close> is truthy; when the request
  succeeds the values are stored and \<open>{values}\<close> is emitted as \<open>change\<close> to every
  subscriber; when it fails the error is logged and nothing is emitted; in all other
  cases nothing is requested and nothing emitted.
\<close>

theorem summary_update_rule:
  "Summary_update env sv st =
     (if action st = ''delete'' \<or> new_record st \<or> field_changed sv st
      then (case getFieldSummary env (field_id sv) of
              Inl err \<Rightarrow>
                (sv, [GetFieldSummary (field_id sv),
                      LogError ''summary'' (''Failed to load field summary: '' @ err)])
            | Inr vals \<Rightarrow>
                (sv\<lparr>summary_values := Some vals\<rparr>,
                 GetFieldSummary (field_id sv)
                 # map (\<lambda>(key, sub). Emit (sub_id sub) ''change'' (SummaryData vals)) (subs sv)))
      else (sv, []))"
  by (auto simp: Summary_update_def Summary_notifyChange_def broadcast_def split: sum.splits)

theorem summary_update_rule_witness:
  "snd (Summary_update env_ok (summary1 [(''s1'', sub_at ''s1'' 0 2), (''s2'', sub_at ''s2'' 2 2)])
          (state_of ''delete'' ''a'' True 1))
     = [GetFieldSummary ''status'',
        Emit ''s1'' ''change'' (SummaryData [(''open'', 2), (''closed'', 11)]),
        Emit ''s2'' ''change'' (SummaryData [(''open'', 2), (''closed'', 11)])]
   \<and> snd (Summary_update env_ok (summary1 [(''s1'', sub_at ''s1'' 0 2)])
          (state_of ''insert'' ''a'' True 1)) = []"
  using summary_update_rule
      [of env_ok "summary1 [(''s1'', sub_at ''s1'' 0 2), (''s2'', sub_at ''s2'' 2 2)]"
          "state_of ''delete'' ''a'' True 1"]
    summary_update_rule
      [of env_ok "summary1 [(''s1'', sub_at ''s1'' 0 2)]" "state_of ''insert'' ''a'' True 1"]
  by (simp add: state_of_def env_ok_def summary1_def sub_at_def field_changed_def)

subsection \<open>Destruction\<close>

lemma registered_removeView:
  "registered (removeView views v) ik sid
     = (registered views ik sid \<and> \<not> (ik = index_key v \<and> sid = search_id v))"
  by (auto simp: registered_def removeView_def split: option.splits)

lemma removeView_subs: "removeView views (v\<lparr>subs := s\<rparr>) = removeView views v"
  by (auto simp: removeView_def split: option.splits)

text \<open>
  C6. When the initial search fails, in \<open>searchRecords\<close> or, for a view that sorts by a
  sorter, in \<open>sortRecords\<close>, the view logs the error, emits \<open>error\<close> with the message to
  every subscriber in turn, then emits \<open>destroy\<close> to every subscriber, and is taken out of
  the registry, in which every other view stays; its own fields are left as they were.
\<close>

theorem search_failure_destroys:
  assumes "searchRecords env (query v) = Inl err
           \<or> (sort_by v \<noteq> ''_id''
              \<and> (\<exists>hash. searchRecords env (query v) = Inr hash
                    \<and> sortRecords env hash (sort_by v) (sort_dir v) = Inl err))"
  shows "search env v views =
           (v, removeView views v,
            Done (LogError ''search'' (''Initial search failed: '' @ err)
                  # map (\<lambda>(key, sub). Emit (sub_id sub) ''error''
                                        (Message (''Initial search failed: '' @ err))) (subs v)
                  @ map (\<lambda>(key, sub). Emit (sub_id sub) ''destroy'' NoData) (subs v)))
         \<and> \<not> registered (removeView views v) (index_key v) (search_id v)
         \<and> (\<forall>ik sid. registered (removeView views v) ik sid
                        = (registered views ik sid
                           \<and> \<not> (ik = index_key v \<and> sid = search_id v)))"
  using assms
  by (auto simp: search_def finish_def search_failed_def destroy_def broadcast_def
      registered_removeView Let_def)

theorem search_failure_destroys_witness:
  "snd (snd (search env_fail (view3 [(''s1'', sub_at ''s1'' 0 2), (''s2'', sub_at ''s2'' 2 2)])
               views1))
     = Done [LogError ''search'' ''Initial search failed: io'',
             Emit ''s1'' ''error'' (Message ''Initial search failed: io''),
             Emit ''s2'' ''error'' (Message ''Initial search failed: io''),
             Emit ''s1'' ''destroy'' NoData, Emit ''s2'' ''destroy'' NoData]
   \<and> \<not> registered
         (fst (snd (search env_fail
                      (view3 [(''s1'', sub_at ''s1'' 0 2), (''s2'', sub_at ''s2'' 2 2)]) views1)))
         ''myapp'' ''q1''
   \<and> registered
         (fst (snd (search env_fail
                      (view3 [(''s1'', sub_at ''s1'' 0 2), (''s2'', sub_at ''s2'' 2 2)]) views1)))
         ''myapp'' ''q2''
   \<and> snd (snd (search env_ok (view3 [(''s1'', sub_at ''s1'' 0 2)]) views1))
     = Done [LogError ''search'' ''Initial search failed: Cannot find sorter'',
             Emit ''s1'' ''error'' (Message ''Initial search failed: Cannot find sorter''),
             Emit ''s1'' ''destroy'' NoData]
   \<and> \<not> registered (fst (snd (search env_ok (view3 [(''s1'', sub_at ''s1'' 0 2)]) views1)))
         ''myapp'' ''q1''"
proof -
  let ?v = "view3 [(''s1'', sub_at ''s1'' 0 2), (''s2'', sub_at ''s2'' 2 2)]"
  let ?u = "view3 [(''s1'', sub_at ''s1'' 0 2)]"
  have h1: "searchRecords env_fail (query ?v) = Inl ''io''
            \<or> (sort_by ?v \<noteq> ''_id''
               \<and> (\<exists>hash. searchRecords env_fail (query ?v) = Inr hash
                     \<and> sortRecords env_fail hash (sort_by ?v) (sort_dir ?v) = Inl ''io''))"
    by (simp add: env_fail_def env_ok_def)
  have h2: "searchRecords env_ok (query ?u) = Inl ''Cannot find sorter''
            \<or> (sort_by ?u \<noteq> ''_id''
               \<and> (\<exists>hash. searchRecords env_ok (query ?u) = Inr hash
                     \<and> sortRecords env_ok hash (sort_by ?u) (sort_dir ?u)
                         = Inl ''Cannot find sorter''))"
    by (simp add: env_ok_def view3_def)
  note r1 = search_failure_destroys [OF h1, of views1]
  note r2 = search_failure_destroys [OF h2, of views1]
  have q: "registered (removeView views1 ?v) ''myapp'' ''q2''"
    by (simp add: registered_removeView) (simp add: registered_def views1_def view3_def)
  from r1 r2 q show ?thesis by (simp add: view3_def sub_at_def)
qed

text \<open>
  C7. \<open>unsubscribe\<close> takes the subscriber out of the subscriber hash of its view. When
  that leaves the hash empty the view destroys itself: it, and no other view, is removed
  from the registry (the \<open>destroy\<close> broadcast then reaches nobody); otherwise the
  registry is untouched.
\<close>

theorem unsubscribe_last_destroys:
  assumes "unsubscribe sub (Some v) views = (r, out)"
  shows "\<exists>v' views'. r = Some (v', views')
           \<and> subs v' = AList.delete (sub_id sub) (subs v)
           \<and> map_of (subs v') (sub_id sub) = None
           \<and> index_key v' = index_key v \<and> search_id v' = search_id v
           \<and> (subs v' = [] \<longrightarrow>
                views' = removeView views v
                \<and> \<not> registered views' (index_key v) (search_id v)
                \<and> (\<forall>ik sid. registered views' ik sid
                               = (registered views ik sid
                                  \<and> \<not> (ik = index_key v \<and> sid = search_id v))))
           \<and> (subs v' \<noteq> [] \<longrightarrow> views' = views)
           \<and> out = Done []"
  using assms
  by (auto simp: unsubscribe_def removeSubscriber_def destroy_def broadcast_def Let_def
      registered_removeView removeView_subs delete_conv' split: if_splits)

theorem unsubscribe_last_destroys_witness:
  "\<not> registered
       (snd (the (fst (unsubscribe (sub_at ''s1'' 0 2) (Some (view3 [(''s1'', sub_at ''s1'' 0 2)]))
                        views1
                      :: (unit search_view \<times> unit registry) option \<times> string outcome))))
       ''myapp'' ''q1''
   \<and> subs (fst (the (fst (unsubscribe (sub_at ''s1'' 0 2)
                             (Some (view3 [(''s1'', sub_at ''s1'' 0 2)])) views1
                           :: (unit search_view \<times> unit registry) option \<times> string outcome))))
       = []
   \<and> registered
       (snd (the (fst (unsubscribe (sub_at ''s1'' 0 2)
                        (Some (view3 [(''s1'', sub_at ''s1'' 0 2), (''s2'', sub_at ''s2'' 1 2)]))
                        views1
                      :: (unit search_view \<times> unit registry) option \<times> string outcome))))
       ''myapp'' ''q1''
   \<and> subs (fst (the (fst (unsubscribe (sub_at ''s1'' 0 2)
                        (Some (view3 [(''s1'', sub_at ''s1'' 0 2), (''s2'', sub_at ''s2'' 1 2)]))
                        views1
                      :: (unit search_view \<times> unit registry) option \<times> string outcome))))
       = [(''s2'', sub_at ''s2'' 1 2)]"
proof -
  let ?v = "view3 [(''s1'', sub_at ''s1'' 0 2)]"
  let ?u = "unsubscribe (sub_at ''s1'' 0 2) (Some ?v) views1
              :: (unit search_view \<times> unit registry) option \<times> string outcome"
  have h: "?u = (fst ?u, snd ?u)" by simp
  from unsubscribe_last_destroys [OF h] obtain v' views' where
    r: "fst ?u = Some (v', views')"
    and s: "subs v' = AList.delete (sub_id (sub_at ''s1'' 0 2)) (subs ?v)"
    and e: "subs v' = [] \<longrightarrow> \<not> registered views' (index_key ?v) (search_id ?v)"
    by blast
  have s': "subs v' = []" using s by (simp add: view3_def sub_at_def AList.delete_eq)
  with e have "\<not> registered views' ''myapp'' ''q1''" by (simp add: view3_def)
  with r s' have A: "\<not> registered (snd (the (fst ?u))) ''myapp'' ''q1''
                     \<and> subs (fst (the (fst ?u))) = []"
    by simp
  let ?v2 = "view3 [(''s1'', sub_at ''s1'' 0 2), (''s2'', sub_at ''s2'' 1 2)]"
  let ?u2 = "unsubscribe (sub_at ''s1'' 0 2) (Some ?v2) views1
              :: (unit search_view \<times> unit registry) option \<times> string outcome"
  have h2: "?u2 = (fst ?u2, snd ?u2)" by simp
  from unsubscribe_last_destroys [OF h2] obtain v2' views2' where
    r2: "fst ?u2 = Some (v2', views2')"
    and s2: "subs v2' = AList.delete (sub_id (sub_at ''s1'' 0 2)) (subs ?v2)"
    and e2: "subs v2' \<noteq> [] \<longrightarrow> views2' = views1"
    by blast
  have s2': "subs v2' = [(''s2'', sub_at ''s2'' 1 2)]"
    using s2 by (simp add: view3_def sub_at_def AList.delete_eq)
  with e2 have "views2' = views1" by simp
  then have "registered views2' ''myapp'' ''q1''" by (simp add: registered_def views1_def)
  with r2 s2' have B: "registered (snd (the (fst ?u2))) ''myapp'' ''q1''
                     \<and> subs (fst (the (fst ?u2))) = [(''s2'', sub_at ''s2'' 1 2)]"
    by simp
  from A B show ?thesis by blast
qed

subsection \<open>Failure of the bulk load\<close>

lemma effects_after_effect: "effects_of (after_effect x out) = x # effects_of out"
  by (cases out) simp_all

lemma distribute_effects:
  "x \<in> set (effects_of (distribute sp record_map ss)) \<Longrightarrow> \<exists>sid d. x = Emit sid ''change'' d"
  by (induction ss) (auto simp: effects_after_effect split: sum.splits)

lemma load_failed:
  assumes "GetRecords ik ids \<in> set (effects_of (load_and_distribute env ik' sp record_map ss))"
    and "getRecords env ik ids = Inl err"
  shows "load_and_distribute env ik' sp record_map ss
           = Done [GetRecords ik ids, LogError ''storage'' (''Failed to fetch records: '' @ err)]"
proof (cases "getRecords env ik' (Object_keys record_map)")
  case (Inl e)
  with assms show ?thesis by (auto simp: load_and_distribute_def)
next
  case (Inr records)
  with assms have "ik = ik' \<and> ids = Object_keys record_map"
    by (auto simp: load_and_distribute_def Let_def effects_after_effect dest: distribute_effects)
  with assms Inr show ?thesis by simp
qed

text \<open>
  C9. When the \<open>getRecords\<close> request that \<open>View.notifyChange\<close> or \<open>View.notifyVisible\<close>
  makes reports an error, the whole outcome is the request and one line in the error log:
  no subscriber is sent anything. When the request of \<open>Subscriber.notifyChange\<close> fails,
  the error is logged and that subscriber is sent \<open>error\<close> with the message, and no
  \<open>change\<close>.
\<close>

theorem load_failure_events:
  assumes "getRecords env ik ids = Inl err"
  shows "(GetRecords ik ids \<in> set (effects_of (notifyChange env v)) \<longrightarrow>
            notifyChange env v
              = Done [GetRecords ik ids, LogError ''storage'' (''Failed to fetch records: '' @ err)])
       \<and> (GetRecords ik ids \<in> set (effects_of (notifyVisible env v record_idx)) \<longrightarrow>
            notifyVisible env v record_idx
              = Done [GetRecords ik ids, LogError ''storage'' (''Failed to fetch records: '' @ err)])
       \<and> (GetRecords ik ids \<in> set (effects_of (Subscriber_notifyChange env sub (Some v))) \<longrightarrow>
            Subscriber_notifyChange env sub (Some v)
              = Done [GetRecords ik ids, LogError ''storage'' (''Failed to fetch records: '' @ err),
                      Emit (sub_id sub) ''error'' (Message (''Failed to fetch records: '' @ err))])"
proof (intro conjI impI)
  assume "GetRecords ik ids \<in> set (effects_of (notifyChange env v))"
  with assms show "notifyChange env v
      = Done [GetRecords ik ids, LogError ''storage'' (''Failed to fetch records: '' @ err)]"
    by (auto simp: notifyChange_def split: if_splits option.splits sum.splits
        dest: load_failed)
next
  assume "GetRecords ik ids \<in> set (effects_of (notifyVisible env v record_idx))"
  with assms show "notifyVisible env v record_idx
      = Done [GetRecords ik ids, LogError ''storage'' (''Failed to fetch records: '' @ err)]"
    by (auto simp: notifyVisible_def Let_def split: if_splits option.splits sum.splits
        dest: load_failed)
next
  assume "GetRecords ik ids \<in> set (effects_of (Subscriber_notifyChange env sub (Some v)))"
  with assms show "Subscriber_notifyChange env sub (Some v)
      = Done [GetRecords ik ids, LogError ''storage'' (''Failed to fetch records: '' @ err),
              Emit (sub_id sub) ''error'' (Message (''Failed to fetch records: '' @ err))]"
    by (auto simp: Subscriber_notifyChange_def split: option.splits sum.splits)
qed

theorem load_failure_events_witness:
  "notifyChange env_fail (view3 [(''s1'', sub_at ''s1'' 0 2), (''s2'', sub_at ''s2'' 1 2)])
     = Done [GetRecords ''myapp'' [''a'', ''bb'', ''ccc''],
             LogError ''storage'' ''Failed to fetch records: io'']
   \<and> notifyVisible env_fail (view3 [(''s1'', sub_at ''s1'' 0 2), (''s2'', sub_at ''s2'' 1 2)]) 0
     = Done [GetRecords ''myapp'' [''a'', ''bb''],
             LogError ''storage'' ''Failed to fetch records: io'']
   \<and> Subscriber_notifyChange env_fail (sub_at ''s2'' 1 2)
         (Some (view3 [(''s1'', sub_at ''s1'' 0 2), (''s2'', sub_at ''s2'' 1 2)]))
     = Done [GetRecords ''myapp'' [''bb'', ''ccc''],
             LogError ''storage'' ''Failed to fetch records: io'',
             Emit ''s2'' ''error'' (Message ''Failed to fetch records: io'')]"
proof -
  let ?v = "view3 [(''s1'', sub_at ''s1'' 0 2), (''s2'', sub_at ''s2'' 1 2)]"
  have w: "window_ids pairs3 0 2 = Inr [''a'', ''bb'']"
    "window_ids pairs3 (Suc 0) 2 = Inr [''bb'', ''ccc'']"
    by (simp_all add: window_ids_def pairs3_def pair_id_at_def upt_rec)
  have g: "getRecords env_fail ''myapp'' ids = Inl ''io''" for ids
    by (simp add: getRecords_def env_fail_def env_ok_def)
  have a: "GetRecords ''myapp'' [''a'', ''bb'', ''ccc''] \<in> set (effects_of (notifyChange env_fail ?v))"
    by (simp add: notifyChange_def view3_def sub_at_def w mark_ids_def load_and_distribute_def
        Object_keys_eval g)
  have b: "GetRecords ''myapp'' [''a'', ''bb''] \<in> set (effects_of (notifyVisible env_fail ?v 0))"
    by (simp add: notifyVisible_def view3_def sub_at_def visible_to_def w mark_ids_def
        load_and_distribute_def Object_keys_eval g)
  have c: "GetRecords ''myapp'' [''bb'', ''ccc'']
             \<in> set (effects_of (Subscriber_notifyChange env_fail (sub_at ''s2'' 1 2) (Some ?v)))"
    by (simp add: Subscriber_notifyChange_def view3_def sub_at_def w g)
  have A: "notifyChange env_fail ?v
      = Done [GetRecords ''myapp'' [''a'', ''bb'', ''ccc''],
              LogError ''storage'' (''Failed to fetch records: '' @ ''io'')]"
    using a load_failure_events [OF g, where ids = "[''a'', ''bb'', ''ccc'']" and v = ?v]
    by blast
  have B: "notifyVisible env_fail ?v 0
      = Done [GetRecords ''myapp'' [''a'', ''bb''],
              LogError ''storage'' (''Failed to fetch records: '' @ ''io'')]"
    using b load_failure_events
      [OF g, where ids = "[''a'', ''bb'']" and v = ?v and record_idx = 0]
    by blast
  have C: "Subscriber_notifyChange env_fail (sub_at ''s2'' 1 2) (Some ?v)
      = Done [GetRecords ''myapp'' [''bb'', ''ccc''],
              LogError ''storage'' (''Failed to fetch records: '' @ ''io''),
              Emit (sub_id (sub_at ''s2'' 1 2)) ''error''
                (Message (''Failed to fetch records: '' @ ''io''))]"
    using c load_failure_events
      [OF g, where ids = "[''bb'', ''ccc'']" and v = ?v and sub = "sub_at ''s2'' 1 2"]
    by blast
  have D: "sub_id (sub_at ''s2'' 1 2) = ''s2''" by (simp add: sub_at_def)
  show ?thesis unfolding A B C D by simp
qed

subsection \<open>Who is notified\<close>

lemma distribute_Done:
  "distribute sp record_map ss = Done es
   \<Longrightarrow> change_targets es = map sub_id ss \<and> \<not> logs_error es"
proof (induction ss arbitrary: es)
  case Nil
  then show ?case by simp
next
  case (Cons s ss)
  then show ?case
    by (cases "distribute sp record_map ss") (auto split: sum.splits)
qed

lemma load_and_distribute_Done:
  "load_and_distribute env ik sp record_map ss = Done es \<Longrightarrow> \<not> logs_error es
   \<Longrightarrow> change_targets es = map sub_id ss"
  apply (auto simp: load_and_distribute_def Let_def split: sum.splits)
  subgoal for records
    by (cases "distribute sp (copy_back (Object_keys record_map) records record_map) ss")
       (auto dest: distribute_Done)
  done

lemma notifyChange_targets:
  "notifyChange env v = Done es \<Longrightarrow> \<not> logs_error es
   \<Longrightarrow> change_targets es = map (\<lambda>(key, sub). sub_id sub) (subs v)"
  by (auto simp: notifyChange_def split: if_splits option.splits sum.splits
      dest!: load_and_distribute_Done)

lemma notifyVisible_targets:
  "notifyVisible env v i = Done es \<Longrightarrow> \<not> logs_error es
   \<Longrightarrow> change_targets es = map sub_id (filter (visible_to i) (map snd (subs v)))"
  by (auto simp: notifyVisible_def Let_def split: if_splits option.splits sum.splits
      dest!: load_and_distribute_Done)

lemma search_success:
  "search_yields env v hash sp cmp
   \<Longrightarrow> search env v views
        = (loaded_view v hash sp cmp, views, notifyChange env (loaded_view v hash sp cmp))"
  by (auto simp: search_yields_def search_def finish_def loaded_view_def Let_def
      split: if_splits)

lemma Subscriber_notifyChange_not_silent: "Subscriber_notifyChange env sub this_view \<noteq> Done []"
  by (simp add: Subscriber_notifyChange_def split: option.splits sum.splits)

text \<open>
  C10. \<open>addSubscriber\<close> stores the key of the view in \<open>sub.view\<close> and the subscriber
  under its id in \<open>subs\<close>. It calls \<open>sub.notifyChange\<close> exactly when \<open>sort_pairs\<close> is
  not \<open>null\<close>, and that call always leaves a trace, so the outcome is empty exactly when
  the initial search has not finished. A subscriber added before that is still in
  \<open>subs\<close> when the search succeeds; the search then calls \<open>notifyChange\<close> on the loaded
  view, and when that call completes without a load error the subscriber is among those
  sent \<open>change\<close>.
\<close>

theorem addSubscriber_rule:
  assumes "addSubscriber env v sub = (v', sub', out)"
  shows "sub' = sub\<lparr>view := Some (index_key v, search_id v)\<rparr>
       \<and> v' = v\<lparr>subs := AList.update (sub_id sub) sub' (subs v)\<rparr>
       \<and> map_of (subs v') (sub_id sub) = Some sub'
       \<and> (if sort_pairs v \<noteq> None then out = Subscriber_notifyChange env sub' (Some v')
          else out = Done [])
       \<and> ((out = Done []) = (sort_pairs v = None))
       \<and> (sort_pairs v = None \<and> search_yields env v' hash sp cmp \<longrightarrow>
            search env v' views
              = (loaded_view v' hash sp cmp, views, notifyChange env (loaded_view v' hash sp cmp))
            \<and> map_of (subs (loaded_view v' hash sp cmp)) (sub_id sub) = Some sub'
            \<and> (\<forall>es. notifyChange env (loaded_view v' hash sp cmp) = Done es \<and> \<not> logs_error es
                  \<longrightarrow> sub_id sub \<in> set (change_targets es)))"
proof -
  from assms have s: "sub' = sub\<lparr>view := Some (index_key v, search_id v)\<rparr>"
    and v: "v' = v\<lparr>subs := AList.update (sub_id sub) sub' (subs v)\<rparr>"
    and o: "out = (if sort_pairs v \<noteq> None then Subscriber_notifyChange env sub' (Some v')
                   else Done [])"
    by (auto simp: addSubscriber_def Let_def)
  have m: "map_of (subs v') (sub_id sub) = Some sub'"
    by (simp add: v update_conv')
  have i: "sub_id sub' = sub_id sub" by (simp add: s)
  have n: "(out = Done []) = (sort_pairs v = None)"
    using o Subscriber_notifyChange_not_silent [of env sub' "Some v'"] by auto
  have f: "search env v' views
              = (loaded_view v' hash sp cmp, views, notifyChange env (loaded_view v' hash sp cmp))
            \<and> map_of (subs (loaded_view v' hash sp cmp)) (sub_id sub) = Some sub'
            \<and> (\<forall>es. notifyChange env (loaded_view v' hash sp cmp) = Done es \<and> \<not> logs_error es
                  \<longrightarrow> sub_id sub \<in> set (change_targets es))"
    if y: "search_yields env v' hash sp cmp"
  proof (intro conjI allI impI)
    show "search env v' views
            = (loaded_view v' hash sp cmp, views, notifyChange env (loaded_view v' hash sp cmp))"
      using y by (rule search_success)
    show "map_of (subs (loaded_view v' hash sp cmp)) (sub_id sub) = Some sub'"
      using m by (simp add: loaded_view_def)
    fix es
    assume "notifyChange env (loaded_view v' hash sp cmp) = Done es \<and> \<not> logs_error es"
    then have "change_targets es
                 = map (\<lambda>(key, sub). sub_id sub) (subs (loaded_view v' hash sp cmp))"
      using notifyChange_targets by blast
    moreover have "(sub_id sub, sub') \<in> set (subs (loaded_view v' hash sp cmp))"
      using m by (simp add: loaded_view_def map_of_SomeD)
    ultimately show "sub_id sub \<in> set (change_targets es)"
      using i by force
  qed
  from s v m o n f show ?thesis by simp
qed

theorem addSubscriber_rule_witness:
  "snd (snd (addSubscriber env_ok (View_init ''myapp'' ''q1'' () ''_id'' 1 ''string'')
               (sub_at ''s1'' 0 2)))
     = Done []
   \<and> snd (snd (search env_ok
                 (fst (addSubscriber env_ok (View_init ''myapp'' ''q1'' () ''_id'' 1 ''string'')
                         (sub_at ''s1'' 0 2)))
                 views1))
     = Done [GetRecords ''myapp'' [''a'', ''bb''],
             Emit ''s1'' ''change''
               (ChangeData [Loaded ''unbase/records/myapp/a'', Loaded ''unbase/records/myapp/bb'']
                  3)]
   \<and> snd (snd (addSubscriber env_ok (view3 []) (sub_at ''s1'' 0 2)))
     = Done [GetRecords ''myapp'' [''a'', ''bb''],
             Emit ''s1'' ''change''
               (ChangeData [Loaded ''unbase/records/myapp/a'', Loaded ''unbase/records/myapp/bb'']
                  3)]"
proof -
  let ?v0 = "View_init ''myapp'' ''q1'' () ''_id'' 1 ''string'' :: unit search_view"
  let ?r1 = "addSubscriber env_ok ?v0 (sub_at ''s1'' 0 2)"
  let ?r2 = "addSubscriber env_ok (view3 []) (sub_at ''s1'' 0 2)"
  have h1: "?r1 = (fst ?r1, fst (snd ?r1), snd (snd ?r1))" by simp
  have h2: "?r2 = (fst ?r2, fst (snd ?r2), snd (snd ?r2))" by simp
  have n0: "sort_pairs ?v0 = None" by (simp add: View_init_def)
  \<comment> \<open>added before the search has finished: nothing yet\<close>
  from addSubscriber_rule [OF h1]
  have "(snd (snd ?r1) = Done []) = (sort_pairs ?v0 = None)"
    by blast
  with n0 have a: "snd (snd ?r1) = Done []" by simp
  \<comment> \<open>the search then finishes and notifies\<close>
  let ?hash = "[(''bb'', 1), (''a'', 1), (''ccc'', 1)] :: (record_id \<times> nat) list"
  let ?cmp = "id_comparator env_ok (fst ?r1)"
  let ?sp = "js_sort ?cmp (map (\<lambda>(record_id, x). (record_id, JStr record_id)) ?hash)"
  have f1: "fst ?r1 = ?v0\<lparr>subs := [(''s1'', (sub_at ''s1'' 0 2)\<lparr>view := Some (''myapp'', ''q1'')\<rparr>)]\<rparr>"
    by (simp add: addSubscriber_def Let_def View_init_def sub_at_def)
  have y: "search_yields env_ok (fst ?r1) ?hash ?sp ?cmp"
    unfolding f1 by (simp add: search_yields_def env_ok_def View_init_def)
  from addSubscriber_rule [OF h1, where hash = ?hash and sp = ?sp and cmp = ?cmp
      and views = views1] n0 y
  have s: "search env_ok (fst ?r1) views1
             = (loaded_view (fst ?r1) ?hash ?sp ?cmp, views1,
                notifyChange env_ok (loaded_view (fst ?r1) ?hash ?sp ?cmp))"
    by blast
  have sp: "?sp = [(''a'', JStr ''a''), (''bb'', JStr ''bb''), (''ccc'', JStr ''ccc'')]"
    unfolding f1 by (simp add: js_sort_def id_comparator_def View_init_def env_ok_def)
  have w0: "window_ids [(''a'', JStr ''a''), (''bb'', JStr ''bb''), (''ccc'', JStr ''ccc'')] 0 2
              = Inr [''a'', ''bb'']"
    by (simp add: window_ids_def pair_id_at_def upt_rec)
  have n: "notifyChange env_ok (loaded_view (fst ?r1) ?hash ?sp ?cmp)
     = Done [GetRecords ''myapp'' [''a'', ''bb''],
             Emit ''s1'' ''change''
               (ChangeData [Loaded ''unbase/records/myapp/a'', Loaded ''unbase/records/myapp/bb'']
                  3)]"
    unfolding sp unfolding f1
    by (simp add: notifyChange_def loaded_view_def View_init_def sub_at_def w0 mark_ids_def
        load_and_distribute_def Object_keys_eval getRecords_def env_ok_def copy_back_def slot_of_def)
  have b: "snd (snd (search env_ok (fst ?r1) views1))
     = Done [GetRecords ''myapp'' [''a'', ''bb''],
             Emit ''s1'' ''change''
               (ChangeData [Loaded ''unbase/records/myapp/a'', Loaded ''unbase/records/myapp/bb'']
                  3)]"
    unfolding s n by simp
  \<comment> \<open>added after the search has finished: notified at once\<close>
  from addSubscriber_rule [OF h2]
  have c0: "snd (snd ?r2)
      = Subscriber_notifyChange env_ok
          ((sub_at ''s1'' 0 2)\<lparr>view := Some (index_key (view3 []), search_id (view3 []))\<rparr>)
          (Some ((view3 [])\<lparr>subs := AList.update (sub_id (sub_at ''s1'' 0 2))
               ((sub_at ''s1'' 0 2)\<lparr>view := Some (index_key (view3 []), search_id (view3 []))\<rparr>)
               (subs (view3 []))\<rparr>))"
    by (simp add: view3_def)
  have w: "window_ids pairs3 0 2 = Inr [''a'', ''bb'']"
    by (simp add: window_ids_def pairs3_def pair_id_at_def upt_rec)
  have l: "length pairs3 = 3" by (simp add: pairs3_def)
  have c: "snd (snd ?r2)
     = Done [GetRecords ''myapp'' [''a'', ''bb''],
             Emit ''s1'' ''change''
               (ChangeData [Loaded ''unbase/records/myapp/a'', Loaded ''unbase/records/myapp/bb'']
                  3)]"
    unfolding c0
    by (simp add: Subscriber_notifyChange_def view3_def sub_at_def w l getRecords_def env_ok_def)
  from a b c show ?thesis by blast
qed

subsection \<open>The invariant of a view\<close>

lemma set_js_insert: "set (js_insert cmp x ys) = insert x (set ys)"
  by (induction ys) auto

lemma set_js_sort: "set (js_sort cmp xs) = set xs"
  by (induction xs) (simp_all add: js_sort_def set_js_insert)

lemma length_js_insert: "length (js_insert cmp x ys) = Suc (length ys)"
  by (induction ys) auto

lemma length_js_sort: "length (js_sort cmp xs) = length xs"
  by (induction xs) (simp_all add: js_sort_def length_js_insert)

lemma distinct_js_insert:
  "distinct (map f (js_insert cmp x ys)) = (f x \<notin> f ` set ys \<and> distinct (map f ys))"
  by (induction ys) (auto simp: set_js_insert)

lemma distinct_js_sort: "distinct (map f (js_sort cmp xs)) = distinct (map f xs)"
proof (induction xs)
  case Nil
  then show ?case by (simp add: js_sort_def)
next
  case (Cons x xs)
  have "js_sort cmp (x # xs) = js_insert cmp x (js_sort cmp xs)"
    by (simp add: js_sort_def)
  with Cons show ?case by (simp add: distinct_js_insert set_js_sort)
qed

lemma sorted_js_insert:
  assumes "consistent cmp" and "sorted_wrt (\<lambda>a b. cmp a b \<le> 0) ys"
  shows "sorted_wrt (\<lambda>a b. cmp a b \<le> 0) (js_insert cmp x ys)"
  using assms(2)
proof (induction ys)
  case Nil
  then show ?case by simp
next
  case (Cons y ys)
  from assms(1) have tot: "cmp a b \<le> 0 \<or> cmp b a \<le> 0" for a b
    unfolding consistent_def by blast
  from assms(1) have tr: "cmp a b \<le> 0 \<Longrightarrow> cmp b c \<le> 0 \<Longrightarrow> cmp a c \<le> 0" for a b c
    unfolding consistent_def by blast
  show ?case
  proof (cases "cmp x y \<le> 0")
    case True
    have "\<forall>z\<in>set ys. cmp y z \<le> 0" using Cons.prems by simp
    then have "\<forall>z\<in>set ys. cmp x z \<le> 0" using tr [OF True] by blast
    with True Cons.prems show ?thesis by simp
  next
    case False
    with tot have yx: "cmp y x \<le> 0" by blast
    have "sorted_wrt (\<lambda>a b. cmp a b \<le> 0) (js_insert cmp x ys)"
      using Cons by simp
    moreover have "\<forall>z\<in>set ys. cmp y z \<le> 0" using Cons.prems by simp
    ultimately show ?thesis using False yx by (simp add: set_js_insert)
  qed
qed

lemma sorted_js_sort:
  "consistent cmp \<Longrightarrow> sorted_wrt (\<lambda>a b. cmp a b \<le> 0) (js_sort cmp xs)"
proof (induction xs)
  case Nil
  then show ?case by (simp add: js_sort_def)
next
  case (Cons x xs)
  have "js_sort cmp (x # xs) = js_insert cmp x (js_sort cmp xs)"
    by (simp add: js_sort_def)
  with Cons show ?case by (simp add: sorted_js_insert)
qed

lemma store_positions_from_other:
  "rid \<notin> fst ` set sp \<Longrightarrow> store_positions_from k sp res rid = res rid"
  by (induction sp arbitrary: k res) auto

lemma store_positions_from_at:
  "distinct (map fst sp) \<Longrightarrow> i < length sp
   \<Longrightarrow> store_positions_from k sp res (fst (sp ! i)) = Some (k + i)"
proof (induction sp arbitrary: k res i)
  case Nil
  then show ?case by simp
next
  case (Cons p ps)
  show ?case
  proof (cases i)
    case 0
    with Cons.prems show ?thesis by (simp add: store_positions_from_other)
  next
    case (Suc j)
    with Cons.prems have "store_positions_from (Suc k) ps (res(fst p \<mapsto> k)) (fst (ps ! j))
                            = Some (Suc k + j)"
      by (intro Cons.IH) auto
    with Suc show ?thesis by simp
  qed
qed

lemma dom_store_positions_from:
  "dom (store_positions_from k sp res) = dom res \<union> fst ` set sp"
  by (induction sp arbitrary: k res) auto

lemma positions_establish:
  assumes "results v = Some (store_positions sp res)" and "sort_pairs v = Some sp"
    and "comparator v = Some cmp"
    and "sorted_wrt (\<lambda>a b. cmp a b \<le> 0) sp" and "distinct (map fst sp)"
    and "dom res = fst ` set sp"
  shows "view_inv v"
proof -
  have a: "\<forall>i < length sp. store_positions sp res (fst (sp ! i)) = Some i"
    using assms(5) by (simp add: store_positions_def store_positions_from_at)
  have b: "dom (store_positions sp res) = fst ` set sp"
    using assms(6) by (simp add: store_positions_def dom_store_positions_from)
  show ?thesis by (simp add: view_inv_def assms(1-4) a b)
qed

lemma view_inv_fields:
  assumes "view_inv v"
  obtains res sp cmp where "results v = Some res" and "sort_pairs v = Some sp"
    and "comparator v = Some cmp" and "sorted_wrt (\<lambda>a b. cmp a b \<le> 0) sp"
    and "\<forall>i < length sp. res (fst (sp ! i)) = Some i" and "dom res = fst ` set sp"
  using assms by (auto simp: view_inv_def split: option.splits)

lemma positions_distinct:
  assumes "\<forall>i < length sp. res (fst (sp ! i)) = Some i"
  shows "distinct (map fst sp)"
  unfolding distinct_conv_nth
proof (intro allI impI)
  fix i j
  assume "i < length (map fst sp)" and "j < length (map fst sp)" and "i \<noteq> j"
  with assms have "res (fst (sp ! i)) = Some i" and "res (fst (sp ! j)) = Some j"
    by simp_all
  with \<open>i \<noteq> j\<close> have "fst (sp ! i) \<noteq> fst (sp ! j)" by auto
  with \<open>i < length (map fst sp)\<close> \<open>j < length (map fst sp)\<close>
  show "map fst sp ! i \<noteq> map fst sp ! j" by simp
qed

lemma positions_lookup:
  assumes "\<forall>i < length sp. res (fst (sp ! i)) = Some i" and "dom res = fst ` set sp"
    and "res rid = Some i"
  shows "i < length sp \<and> fst (sp ! i) = rid"
proof -
  from assms(2,3) have "rid \<in> fst ` set sp" by auto
  then obtain j where j: "j < length sp" "fst (sp ! j) = rid"
    by (auto simp: in_set_conv_nth)
  with assms(1) have "res rid = Some j" by auto
  with assms(3) j show ?thesis by simp
qed

lemma resortAndNotify_inv:
  assumes "results v = Some res" and "sort_pairs v = Some sp" and "comparator v = Some cmp"
    and "consistent cmp" and "distinct (map fst sp)" and "dom res = fst ` set sp"
  shows "view_inv (fst (resortAndNotify env v))"
proof (rule positions_establish)
  show "results (fst (resortAndNotify env v)) = Some (store_positions (js_sort cmp sp) res)"
    using assms by (simp add: resortAndNotify_def Let_def)
  show "sort_pairs (fst (resortAndNotify env v)) = Some (js_sort cmp sp)"
    using assms(1-3) by (simp add: resortAndNotify_def Let_def)
  show "comparator (fst (resortAndNotify env v)) = Some cmp"
    using assms(1-3) by (simp add: resortAndNotify_def Let_def)
  show "sorted_wrt (\<lambda>a b. cmp a b \<le> 0) (js_sort cmp sp)"
    using assms(4) by (rule sorted_js_sort)
  show "distinct (map fst (js_sort cmp sp))"
    using assms(5) by (simp add: distinct_js_sort)
  show "dom res = fst ` set (js_sort cmp sp)"
    using assms(6) by (simp add: set_js_sort)
qed

lemma search_establishes:
  assumes "search_yields env v hash sp cmp" and "distinct (map fst hash)" and "consistent cmp"
    and "sort_by v \<noteq> ''_id'' \<longrightarrow>
           sorted_wrt (\<lambda>a b. cmp a b \<le> 0) sp \<and> distinct (map fst sp)
           \<and> fst ` set sp = fst ` set hash"
  shows "view_inv (fst (search env v views))"
proof -
  have f: "fst (search env v views) = loaded_view v hash sp cmp"
    using assms(1) by (simp add: search_success)
  have m: "map fst (map (\<lambda>(record_id, x). (record_id, JStr record_id)) hash) = map fst hash"
    by (induction hash) auto
  have "sorted_wrt (\<lambda>a b. cmp a b \<le> 0) sp \<and> distinct (map fst sp)
          \<and> fst ` set sp = fst ` set hash"
  proof (cases "sort_by v = ''_id''")
    case True
    with assms(1) have sp: "sp = js_sort cmp (map (\<lambda>(record_id, x). (record_id, JStr record_id)) hash)"
      by (simp add: search_yields_def)
    have "fst ` set sp = set (map fst sp)" by simp
    also have "\<dots> = set (map fst (map (\<lambda>(record_id, x). (record_id, JStr record_id)) hash))"
      unfolding sp set_map set_js_sort ..
    also have "\<dots> = set (map fst hash)" by (simp only: m)
    finally have "fst ` set sp = fst ` set hash" by simp
    moreover have "distinct (map fst sp)"
      unfolding sp distinct_js_sort m by (rule assms(2))
    moreover have "sorted_wrt (\<lambda>a b. cmp a b \<le> 0) sp"
      unfolding sp using assms(3) by (rule sorted_js_sort)
    ultimately show ?thesis by blast
  next
    case False
    with assms(4) show ?thesis by blast
  qed
  then have "view_inv (loaded_view v hash sp cmp)"
    by (intro positions_establish [where res = "map_of hash" and sp = sp and cmp = cmp])
       (simp_all add: loaded_view_def dom_map_of_conv_image_fst)
  with f show ?thesis by simp
qed

lemma image_splice1:
  assumes "distinct (map f xs)" and "i < length xs"
  shows "f ` set (splice1 xs i) = f ` set xs - {f (xs ! i)}"
    and "distinct (map f (splice1 xs i))"
proof -
  from assms(2) have x: "xs = take i xs @ xs ! i # drop (Suc i) xs"
    by (rule id_take_nth_drop)
  with assms(1) have d: "distinct (map f (take i xs @ xs ! i # drop (Suc i) xs))" by simp
  then have "f (xs ! i) \<notin> f ` set (take i xs) \<union> f ` set (drop (Suc i) xs)" by auto
  moreover have "f ` set xs
      = f ` set (take i xs) \<union> {f (xs ! i)} \<union> f ` set (drop (Suc i) xs)"
    by (subst x) auto
  ultimately show "f ` set (splice1 xs i) = f ` set xs - {f (xs ! i)}"
    by (auto simp: splice1_def)
  from d show "distinct (map f (splice1 xs i))" by (auto simp: splice1_def)
qed

lemma addRecord_inv:
  assumes "view_inv v" and "comparator v = Some cmp" and "consistent cmp"
    and "results v = Some r" and "r (state_id st) = None"
  shows "view_inv (fst (addRecord env v st))"
proof -
  from assms(1) obtain res sp cmp' where f: "results v = Some res" "sort_pairs v = Some sp"
    and p: "\<forall>i < length sp. res (fst (sp ! i)) = Some i" and dm: "dom res = fst ` set sp"
    by (rule view_inv_fields)
  let ?v1 = "v\<lparr>results := Some (res(state_id st \<mapsto> 1)),
                sort_pairs := Some (sp @ [(state_id st, sort_value_of v st)])\<rparr>"
  have a: "addRecord env v st = resortAndNotify env ?v1"
    using f by (simp add: addRecord_def Let_def)
  from assms(4,5) f have "res (state_id st) = None" by simp
  with dm have n: "state_id st \<notin> fst ` set sp" by auto
  have "view_inv (fst (resortAndNotify env ?v1))"
  proof (rule resortAndNotify_inv [where cmp = cmp])
    show "results ?v1 = Some (res(state_id st \<mapsto> 1))" by simp
    show "sort_pairs ?v1 = Some (sp @ [(state_id st, sort_value_of v st)])" by simp
    show "comparator ?v1 = Some cmp" using assms(2) by simp
    show "consistent cmp" by (rule assms(3))
    show "distinct (map fst (sp @ [(state_id st, sort_value_of v st)]))"
      using n positions_distinct [OF p] by simp
    show "dom (res(state_id st \<mapsto> 1)) = fst ` set (sp @ [(state_id st, sort_value_of v st)])"
      using dm by auto
  qed
  with a show ?thesis by simp
qed

lemma removeRecord_inv:
  assumes "view_inv v" and "comparator v = Some cmp" and "consistent cmp"
    and "results v = Some r" and "r (state_id st) \<noteq> None"
  shows "view_inv (fst (removeRecord env v st))"
proof -
  from assms(1) obtain res sp cmp' where f: "results v = Some res" "sort_pairs v = Some sp"
    and p: "\<forall>i < length sp. res (fst (sp ! i)) = Some i" and dm: "dom res = fst ` set sp"
    by (rule view_inv_fields)
  from assms(4,5) f obtain i where i: "res (state_id st) = Some i"
    by auto
  from positions_lookup [OF p dm i] have l: "i < length sp" "fst (sp ! i) = state_id st"
    by simp_all
  let ?v1 = "v\<lparr>results := Some (res(state_id st := None)),
                sort_pairs := Some (splice1 sp i)\<rparr>"
  have a: "removeRecord env v st = resortAndNotify env ?v1"
    using f i by (simp add: removeRecord_def Let_def)
  have "view_inv (fst (resortAndNotify env ?v1))"
  proof (rule resortAndNotify_inv [where cmp = cmp])
    show "results ?v1 = Some (res(state_id st := None))" by simp
    show "sort_pairs ?v1 = Some (splice1 sp i)" by simp
    show "comparator ?v1 = Some cmp" using assms(2) by simp
    show "consistent cmp" by (rule assms(3))
    show "distinct (map fst (splice1 sp i))"
      using positions_distinct [OF p] l(1) by (rule image_splice1(2))
    show "dom (res(state_id st := None)) = fst ` set (splice1 sp i)"
      using image_splice1(1) [OF positions_distinct [OF p] l(1)] dm l(2) by auto
  qed
  with a show ?thesis by simp
qed

lemma update_sorted_inv:
  assumes "view_inv v" and "comparator v = Some cmp" and "consistent cmp"
  shows "view_inv (fst (update_sorted env v st i))"
proof -
  from assms(1) obtain res sp cmp' where f: "results v = Some res" "sort_pairs v = Some sp"
    and p: "\<forall>i < length sp. res (fst (sp ! i)) = Some i" and dm: "dom res = fst ` set sp"
    by (rule view_inv_fields)
  let ?new = "js_get (sorters (idx_data st)) (sort_by v)"
  let ?sp1 = "sp[i := (fst (sp ! i), ?new)]"
  let ?v1 = "v\<lparr>sort_pairs := Some ?sp1\<rparr>"
  show ?thesis
  proof (cases "i < length sp \<and> \<not> js_loose_eq (toNumber env) ?new (snd (sp ! i))")
    case True
    then have a: "update_sorted env v st i = resortAndNotify env ?v1"
      using f by (simp add: update_sorted_def Let_def)
    have m: "map fst ?sp1 = map fst sp"
      using True by (simp add: map_update list_update_same_conv)
    have "view_inv (fst (resortAndNotify env ?v1))"
    proof (rule resortAndNotify_inv [where cmp = cmp])
      show "results ?v1 = Some res" using f by simp
      show "sort_pairs ?v1 = Some ?sp1" by simp
      show "comparator ?v1 = Some cmp" using assms(2) by simp
      show "consistent cmp" by (rule assms(3))
      show "distinct (map fst ?sp1)" unfolding m by (rule positions_distinct [OF p])
      have "fst ` set ?sp1 = set (map fst ?sp1)" by simp
      also have "\<dots> = set (map fst sp)" by (simp only: m)
      finally show "dom res = fst ` set ?sp1" using dm by simp
    qed
    with a show ?thesis by simp
  next
    case False
    then have "fst (update_sorted env v st i) = v"
      using f by (auto simp: update_sorted_def Let_def)
    with assms(1) show ?thesis by simp
  qed
qed

lemma update_inv:
  assumes "view_inv v" and "comparator v = Some cmp" and "consistent cmp"
  shows "view_inv (fst (update env v st))"
proof -
  from assms(1) obtain res sp cmp' where f: "results v = Some res"
    by (rule view_inv_fields)
  note a = addRecord_inv [OF assms f, of st env] and r = removeRecord_inv [OF assms f, of st env]
    and s = update_sorted_inv [OF assms, of env st]
  show ?thesis
  proof (cases "old_hit v st")
    case (Inl e)
    with assms(1) show ?thesis by (simp add: update_def)
  next
    case o: (Inr was_hit)
    with f have w: "was_hit = (res (state_id st) \<noteq> None)"
      by (auto simp: old_hit_def js_hasOwnProperty_def split: if_splits)
    show ?thesis
    proof (cases "new_hit env v st")
      case (Inl e)
      with o w f assms(1) r show ?thesis by (auto simp: update_def)
    next
      case (Inr is_hit)
      with o w f assms(1) a r s show ?thesis
        by (auto simp: update_def split: option.splits)
    qed
  qed
qed

lemma resortAndNotify_comparator: "comparator (fst (resortAndNotify env v)) = comparator v"
  by (simp add: resortAndNotify_def Let_def split: option.splits)

lemma update_comparator: "comparator (fst (update env v st)) = comparator v"
  by (simp add: update_def addRecord_def removeRecord_def update_sorted_def Let_def
      resortAndNotify_comparator split: option.splits sum.splits)

lemma updates_inv:
  assumes "view_inv v" and "comparator v = Some cmp" and "consistent cmp"
  shows "view_inv (fold (\<lambda>st w. fst (update env w st)) sts v)"
  using assms(1,2)
proof (induction sts arbitrary: v)
  case Nil
  then show ?case by simp
next
  case (Cons st sts)
  from Cons.prems assms(3) have "view_inv (fst (update env v st))" by (rule update_inv)
  moreover from Cons.prems(2) have "comparator (fst (update env v st)) = Some cmp"
    by (simp add: update_comparator)
  ultimately have "view_inv (fold (\<lambda>st w. fst (update env w st)) sts (fst (update env v st)))"
    by (rule Cons.IH)
  then show ?case by simp
qed

text \<open>
  C2. The invariant of a view says that \<open>sort_pairs\<close> is sorted under the comparator of
  the view, that \<open>results\<close> maps the id of the pair at every index to that index, and
  that the ids in \<open>results\<close> are exactly the ids of the pairs. It holds when the initial
  search has succeeded (for a search hash with distinct keys and a consistent comparator;
  for a view sorting by a sorter, when \<open>sortRecords\<close> has returned the hits sorted, each
  once), and \<open>update\<close>, \<open>addRecord\<close> of an id not yet in \<open>results\<close> and \<open>removeRecord\<close>
  of an id in \<open>results\<close> keep it and the comparator, and so does any sequence of
  updates. Under it every id of \<open>results\<close>
  maps to the position of its pair, both have the same size, and no id occurs twice.
\<close>

theorem view_invariant:
  "(search_yields env v hash sp cmp \<and> distinct (map fst hash) \<and> consistent cmp
      \<and> (sort_by v \<noteq> ''_id'' \<longrightarrow>
            sorted_wrt (\<lambda>a b. cmp a b \<le> 0) sp \<and> distinct (map fst sp)
            \<and> fst ` set sp = fst ` set hash)
     \<longrightarrow> view_inv (fst (search env v views)))
   \<and> (view_inv u \<and> comparator u = Some c \<and> consistent c \<longrightarrow>
         view_inv (fst (update env u st))
         \<and> comparator (fst (update env u st)) = Some c
         \<and> view_inv (fold (\<lambda>st w. fst (update env w st)) sts u)
         \<and> (results u = Some r \<and> r (state_id st) = None \<longrightarrow>
               view_inv (fst (addRecord env u st)))
         \<and> (results u = Some r \<and> r (state_id st) \<noteq> None \<longrightarrow>
               view_inv (fst (removeRecord env u st))))
   \<and> (view_inv w \<and> results w = Some res \<and> sort_pairs w = Some ps \<and> comparator w = Some k \<longrightarrow>
         sorted_wrt (\<lambda>a b. k a b \<le> 0) ps
         \<and> (\<forall>i < length ps. res (fst (ps ! i)) = Some i)
         \<and> (\<forall>rid \<in> dom res. \<exists>i < length ps. res rid = Some i \<and> fst (ps ! i) = rid)
         \<and> card (dom res) = length ps
         \<and> distinct (map fst ps))"
proof (intro conjI impI)
  assume "search_yields env v hash sp cmp \<and> distinct (map fst hash) \<and> consistent cmp
      \<and> (sort_by v \<noteq> ''_id'' \<longrightarrow>
            sorted_wrt (\<lambda>a b. cmp a b \<le> 0) sp \<and> distinct (map fst sp)
            \<and> fst ` set sp = fst ` set hash)"
  then have "search_yields env v hash sp cmp" and "distinct (map fst hash)" and "consistent cmp"
    and "sort_by v \<noteq> ''_id'' \<longrightarrow>
            sorted_wrt (\<lambda>a b. cmp a b \<le> 0) sp \<and> distinct (map fst sp)
            \<and> fst ` set sp = fst ` set hash"
    by simp_all
  then show "view_inv (fst (search env v views))"
    by (rule search_establishes)
next
  assume "view_inv u \<and> comparator u = Some c \<and> consistent c"
  then have h: "view_inv u" "comparator u = Some c" "consistent c" by simp_all
  from h show "view_inv (fst (update env u st))" by (rule update_inv)
  from h(2) show "comparator (fst (update env u st)) = Some c" by (simp add: update_comparator)
  from h show "view_inv (fold (\<lambda>st w. fst (update env w st)) sts u)" by (rule updates_inv)
  { assume "results u = Some r \<and> r (state_id st) = None"
    then have "results u = Some r" and "r (state_id st) = None" by simp_all
    with h show "view_inv (fst (addRecord env u st))" by (rule addRecord_inv) }
  { assume "results u = Some r \<and> r (state_id st) \<noteq> None"
    then have "results u = Some r" and "r (state_id st) \<noteq> None" by simp_all
    with h show "view_inv (fst (removeRecord env u st))" by (rule removeRecord_inv) }
next
  assume "view_inv w \<and> results w = Some res \<and> sort_pairs w = Some ps \<and> comparator w = Some k"
  then have vi: "view_inv w" and f: "results w = Some res" "sort_pairs w = Some ps"
      "comparator w = Some k"
    by simp_all
  from vi obtain res' ps' k' where "results w = Some res'" "sort_pairs w = Some ps'"
      "comparator w = Some k'" "sorted_wrt (\<lambda>a b. k' a b \<le> 0) ps'"
      "\<forall>i < length ps'. res' (fst (ps' ! i)) = Some i" "dom res' = fst ` set ps'"
    by (rule view_inv_fields)
  with f have s: "sorted_wrt (\<lambda>a b. k a b \<le> 0) ps"
    and p: "\<forall>i < length ps. res (fst (ps ! i)) = Some i"
    and d: "dom res = fst ` set ps"
    by simp_all
  from s show "sorted_wrt (\<lambda>a b. k a b \<le> 0) ps" .
  from p show "\<forall>i < length ps. res (fst (ps ! i)) = Some i" .
  show "\<forall>rid \<in> dom res. \<exists>i < length ps. res rid = Some i \<and> fst (ps ! i) = rid"
    using positions_lookup [OF p d] by blast
  show "distinct (map fst ps)" by (rule positions_distinct [OF p])
  then have "card (set (map fst ps)) = length (map fst ps)" by (rule distinct_card)
  with d show "card (dom res) = length ps" by simp
qed

theorem view_invariant_witness:
  "view_inv (fst (search env_ok (View_init ''myapp'' ''q1'' () ''_id'' 1 ''string'') views1))
   \<and> sort_pairs (fst (search env_ok (View_init ''myapp'' ''q1'' () ''_id'' 1 ''string'') views1))
       = Some [(''a'', JStr ''a''), (''bb'', JStr ''bb''), (''ccc'', JStr ''ccc'')]
   \<and> view_inv (fst (update env_ok (view3 [(''s1'', sub_at ''s1'' 0 2)])
                       (state_of ''insert'' ''dddd'' True 0)))
   \<and> view_inv (fold (\<lambda>st w. fst (update env_ok w st))
                 [state_of ''insert'' ''dddd'' True 0, state_of ''delete'' ''a'' True 1,
                  state_of ''insert'' ''bb'' True 7]
                 (view3 [(''s1'', sub_at ''s1'' 0 2)]))
   \<and> card (dom [''a'' \<mapsto> 0, ''bb'' \<mapsto> 1, ''ccc'' \<mapsto> (2::nat)]) = 3"
proof -
  let ?v0 = "View_init ''myapp'' ''q1'' () ''_id'' 1 ''string'' :: unit search_view"
  let ?cmp = "id_comparator env_ok ?v0"
  let ?hash = "[(''bb'', 1), (''a'', 1), (''ccc'', 1)] :: (record_id \<times> nat) list"
  let ?sp = "js_sort ?cmp (map (\<lambda>(record_id, x). (record_id, JStr record_id)) ?hash)"
  have y: "search_yields env_ok ?v0 ?hash ?sp ?cmp"
    by (simp add: search_yields_def env_ok_def View_init_def)
  have c: "consistent ?cmp"
    by (auto simp: consistent_def id_comparator_def View_init_def env_ok_def)
  have d: "distinct (map fst ?hash)" by simp
  have s: "sort_by ?v0 \<noteq> ''_id'' \<longrightarrow>
            sorted_wrt (\<lambda>a b. ?cmp a b \<le> 0) ?sp \<and> distinct (map fst ?sp)
            \<and> fst ` set ?sp = fst ` set ?hash"
    by (simp add: View_init_def)
  have A: "view_inv (fst (search env_ok ?v0 views1))"
    using view_invariant
      [where env = env_ok and v = ?v0 and hash = ?hash and sp = ?sp and cmp = ?cmp
         and views = views1, THEN conjunct1]
      y c d s
    by blast
  have B: "sort_pairs (fst (search env_ok ?v0 views1))
       = Some [(''a'', JStr ''a''), (''bb'', JStr ''bb''), (''ccc'', JStr ''ccc'')]"
  proof -
    have "fst (search env_ok ?v0 views1) = loaded_view ?v0 ?hash ?sp ?cmp"
      by (simp only: search_success [OF y] fst_conv)
    moreover have "?sp = [(''a'', JStr ''a''), (''bb'', JStr ''bb''), (''ccc'', JStr ''ccc'')]"
      by (simp add: js_sort_def id_comparator_def View_init_def env_ok_def)
    ultimately show ?thesis by (simp add: loaded_view_def)
  qed
  let ?u = "view3 [(''s1'', sub_at ''s1'' 0 2)]"
  have vi: "view_inv ?u"
    by (auto simp: view_inv_def view3_def pairs3_def cmp_key_def less_Suc_eq)
  have ck: "consistent cmp_key" by (auto simp: consistent_def cmp_key_def)
  have cu: "comparator ?u = Some cmp_key" by (simp add: view3_def)
  have C: "view_inv (fst (update env_ok ?u (state_of ''insert'' ''dddd'' True 0)))"
    using view_invariant
      [where env = env_ok and u = ?u and c = cmp_key
         and st = "state_of ''insert'' ''dddd'' True 0", THEN conjunct2, THEN conjunct1]
      vi ck cu
    by blast
  have D: "view_inv (fold (\<lambda>st w. fst (update env_ok w st))
                 [state_of ''insert'' ''dddd'' True 0, state_of ''delete'' ''a'' True 1,
                  state_of ''insert'' ''bb'' True 7] ?u)"
    using view_invariant
      [where env = env_ok and u = ?u and c = cmp_key
         and sts = "[state_of ''insert'' ''dddd'' True 0, state_of ''delete'' ''a'' True 1,
                     state_of ''insert'' ''bb'' True 7]",
       THEN conjunct2, THEN conjunct1]
      vi ck cu
    by blast
  have ru: "results ?u = Some [''a'' \<mapsto> 0, ''bb'' \<mapsto> 1, ''ccc'' \<mapsto> 2]"
    and su: "sort_pairs ?u = Some pairs3"
    by (simp_all add: view3_def)
  have "card (dom [''a'' \<mapsto> 0, ''bb'' \<mapsto> 1, ''ccc'' \<mapsto> (2::nat)]) = length pairs3"
    using view_invariant
      [where w = ?u and res = "[''a'' \<mapsto> 0, ''bb'' \<mapsto> 1, ''ccc'' \<mapsto> 2]" and ps = pairs3
         and k = cmp_key, THEN conjunct2, THEN conjunct2]
      vi ru su cu
    by blast
  then have E: "card (dom [''a'' \<mapsto> 0, ''bb'' \<mapsto> 1, ''ccc'' \<mapsto> (2::nat)]) = 3"
    by (simp add: pairs3_def)
  from A B C D E show ?thesis by blast
qed

subsection \<open>The window of a subscriber\<close>

lemma collect_ids_upt:
  "collect_ids sp off [a..<b] =
     (if b \<le> a \<or> off + b \<le> length sp
      then Inr (map (\<lambda>i. fst (sp ! (i + off))) [a..<b]) else Inl TypeError)"
proof (induction "b - a" arbitrary: a)
  case 0
  then show ?case by simp
next
  case (Suc n)
  then have l: "a < b" and n: "n = b - Suc a" by simp_all
  from l have u: "[a..<b] = a # [Suc a..<b]" by (rule upt_conv_Cons)
  show ?case
    unfolding u using l Suc.hyps(1) [OF n]
    by (auto simp: pair_id_at_def)
qed

lemma window_slice_take: "window_slice sp off lmt = take lmt (drop off sp)"
proof -
  have "min (off + lmt) (length sp) - off = min lmt (length (drop off sp))" by auto
  moreover have "take (min lmt (length xs)) xs = take lmt xs" for xs :: "pair list"
    by (cases "lmt \<le> length xs") (simp_all add: min_def)
  ultimately show ?thesis by (simp only: window_slice_def)
qed

lemma window_ids_eq:
  "window_ids sp off lmt =
     (if min lmt (length sp) = 0 \<or> off + min lmt (length sp) \<le> length sp
      then Inr (map fst (window_slice sp off lmt)) else Inl TypeError)"
proof -
  let ?n = "min lmt (length sp)"
  have e: "window_ids sp off lmt =
      (if ?n = 0 \<or> off + ?n \<le> length sp
       then Inr (map (\<lambda>i. fst (sp ! (i + off))) [0..<?n]) else Inl TypeError)"
    by (simp only: window_ids_def collect_ids_upt le_zero_eq)
  show ?thesis
  proof (cases "?n = 0 \<or> off + ?n \<le> length sp")
    case True
    then have "map (\<lambda>i. fst (sp ! (i + off))) [0..<?n] = map fst (take lmt (drop off sp))"
      by (intro nth_equalityI) (auto simp: add.commute)
    with True show ?thesis unfolding e by (simp only: if_True window_slice_take)
  next
    case False
    then show ?thesis unfolding e by (simp only: if_False)
  qed
qed

lemma mark_windows_throws:
  "s \<in> set ss \<Longrightarrow> window_ids sp (offset s) (limit s) = Inl TypeError
   \<Longrightarrow> mark_windows sp ss record_map = Inl TypeError"
proof (induction ss arbitrary: record_map)
  case Nil
  then show ?case by simp
next
  case (Cons a ss)
  show ?case
  proof (cases "window_ids sp (offset a) (limit a)")
    case (Inl e)
    then show ?thesis by (cases e) simp
  next
    case (Inr ids)
    with Cons.prems have "s \<in> set ss" by auto
    with Cons Inr show ?thesis by simp
  qed
qed

text \<open>
  C1. The claim asks that every window be served the slice
  \<open>sort_pairs[offset : min(offset + limit, len)]\<close>, also a window that reaches past the
  end. The loop of \<open>Subscriber.notifyChange\<close>, \<open>View.notifyChange\<close> and
  \<open>View.notifyVisible\<close> runs \<open>idx\<close> up to \<open>min(limit, len)\<close> and reads
  \<open>sort_pairs[idx + offset]\<close>: whenever \<open>offset + min(limit, len)\<close> exceeds \<open>len\<close> (the
  loop running at all) it reads past the end, and the function throws a \<open>TypeError\<close>
  before it has requested or emitted anything; for the two functions of the view one such
  subscriber (for \<open>notifyVisible\<close>: one whose window holds the position) is enough.
\<close>

theorem window_past_end_throws:
  fixes env :: "('q, 'd, 'r) storage"
  assumes "sort_pairs v = Some sp" and "0 < min (limit sub) (length sp)"
    and "length sp < offset sub + min (limit sub) (length sp)"
  shows "Subscriber_notifyChange env sub (Some v) = Thrown [] TypeError
       \<and> (sub \<in> snd ` set (subs v) \<longrightarrow> notifyChange env v = Thrown [] TypeError)
       \<and> (sub \<in> snd ` set (subs v) \<and> offset sub \<le> i \<and> i < offset sub + limit sub \<longrightarrow>
            notifyVisible env v i = Thrown [] TypeError)"
proof -
  from assms(2,3) have w: "window_ids sp (offset sub) (limit sub) = Inl TypeError"
    by (simp only: window_ids_eq) auto
  have a: "Subscriber_notifyChange env sub (Some v) = Thrown [] TypeError"
    using assms(1) w by (simp add: Subscriber_notifyChange_def)
  have b: "notifyChange env v = Thrown [] TypeError" if "sub \<in> snd ` set (subs v)"
  proof -
    from that have "sub \<in> set (map snd (subs v))" by simp
    then have "mark_windows sp (map snd (subs v)) ([] :: 'r record_map) = Inl TypeError"
      using w by (rule mark_windows_throws)
    moreover from that have "subs v \<noteq> []" by auto
    ultimately show ?thesis using assms(1) by (simp add: notifyChange_def)
  qed
  have c: "notifyVisible env v i = Thrown [] TypeError"
    if "sub \<in> snd ` set (subs v) \<and> offset sub \<le> i \<and> i < offset sub + limit sub"
  proof -
    from that have "sub \<in> set (filter (visible_to i) (map snd (subs v)))"
      by (simp add: visible_to_def)
    then have "mark_windows sp (filter (visible_to i) (map snd (subs v))) ([] :: 'r record_map)
                 = Inl TypeError"
      using w by (rule mark_windows_throws)
    moreover from that have "subs v \<noteq> []" by auto
    ultimately show ?thesis using assms(1) by (simp add: notifyVisible_def Let_def)
  qed
  from a b c show ?thesis by blast
qed

theorem window_past_end_throws_witness:
  "window_slice pairs3 2 2 = [(''ccc'', JNum 3)]
   \<and> Subscriber_notifyChange env_ok (sub_at ''s1'' 2 2) (Some (view3 [(''s1'', sub_at ''s1'' 2 2)]))
       = Thrown [] TypeError
   \<and> notifyChange env_ok (view3 [(''s1'', sub_at ''s1'' 2 2)]) = Thrown [] TypeError
   \<and> notifyVisible env_ok (view3 [(''s1'', sub_at ''s1'' 2 2)]) 2 = Thrown [] TypeError"
proof -
  let ?sub = "sub_at ''s1'' 2 2"
  let ?v = "view3 [(''s1'', ?sub)]"
  have h1: "sort_pairs ?v = Some pairs3" by (simp add: view3_def)
  have h2: "0 < min (limit ?sub) (length pairs3)" by (simp add: sub_at_def pairs3_def)
  have h3: "length pairs3 < offset ?sub + min (limit ?sub) (length pairs3)"
    by (simp add: sub_at_def pairs3_def)
  have m: "?sub \<in> snd ` set (subs ?v)" by (simp add: view3_def)
  have r: "offset ?sub \<le> 2 \<and> 2 < offset ?sub + limit ?sub" by (simp add: sub_at_def)
  have s: "window_slice pairs3 2 2 = [(''ccc'', JNum 3)]"
    by (simp add: window_slice_def pairs3_def)
  from window_past_end_throws [OF h1 h2 h3, of env_ok 2] m r s show ?thesis by blast
qed

lemma mark_ids_keys:
  "fst ` set (mark_ids ids m) = set ids \<union> fst ` set m"
  "distinct (map fst m) \<Longrightarrow> distinct (map fst (mark_ids ids m))"
  unfolding mark_ids_def
  by (induction ids arbitrary: m) (auto simp: dom_update distinct_update)

lemma mark_windows_keys:
  assumes "mark_windows sp ss m = Inr rm" and "distinct (map fst m)"
  shows "distinct (map fst rm) \<and> fst ` set m \<subseteq> fst ` set rm
         \<and> (\<forall>s \<in> set ss. \<exists>ids. window_ids sp (offset s) (limit s) = Inr ids
                                \<and> set ids \<subseteq> fst ` set rm)"
  using assms
proof (induction ss arbitrary: m)
  case Nil
  then show ?case by simp
next
  case (Cons a ss)
  from Cons.prems(1) obtain ids where w: "window_ids sp (offset a) (limit a) = Inr ids"
    and r: "mark_windows sp ss (mark_ids ids m) = Inr rm"
    by (auto split: sum.splits)
  from Cons.prems(2) have "distinct (map fst (mark_ids ids m))" by (rule mark_ids_keys(2))
  from Cons.IH [OF r this] have d: "distinct (map fst rm)"
    and s: "fst ` set (mark_ids ids m) \<subseteq> fst ` set rm"
    and t: "\<forall>s \<in> set ss. \<exists>ids. window_ids sp (offset s) (limit s) = Inr ids
                                \<and> set ids \<subseteq> fst ` set rm"
    by simp_all
  from s have "set ids \<subseteq> fst ` set rm" and "fst ` set m \<subseteq> fst ` set rm"
    by (simp_all add: mark_ids_keys(1))
  with d t w show ?case by simp
qed

lemma map_of_fold_update:
  "map_of (fold (\<lambda>idx. AList.update (f idx) (g idx)) is m)
     = fold (\<lambda>idx h. h(f idx \<mapsto> g idx)) is (map_of m)"
  by (induction "is" arbitrary: m) (simp_all add: update_conv')

lemma fold_upd_other:
  "k \<notin> f ` set is \<Longrightarrow> fold (\<lambda>idx h. h(f idx \<mapsto> g idx)) is h k = h k"
  by (induction "is" arbitrary: h) auto

lemma fold_upd_at:
  "distinct is \<Longrightarrow> inj_on f (set is) \<Longrightarrow> i \<in> set is
   \<Longrightarrow> fold (\<lambda>idx h. h(f idx \<mapsto> g idx)) is h (f i) = Some (g i)"
proof (induction "is" arbitrary: h)
  case Nil
  then show ?case by simp
next
  case (Cons j js)
  show ?case
  proof (cases "i = j")
    case True
    from Cons.prems have nf: "f j \<notin> f ` set js" by (auto simp: inj_on_def)
    have "fold (\<lambda>idx h. h(f idx \<mapsto> g idx)) (j # js) h (f j)
            = fold (\<lambda>idx h. h(f idx \<mapsto> g idx)) js (h(f j \<mapsto> g j)) (f j)"
      by (simp only: fold_Cons o_apply)
    also have "\<dots> = (h(f j \<mapsto> g j)) (f j)" using nf by (rule fold_upd_other)
    also have "\<dots> = Some (g j)" by simp
    finally show ?thesis unfolding True .
  next
    case False
    with Cons.prems have "distinct js" "inj_on f (set js)" "i \<in> set js" by auto
    then have "fold (\<lambda>idx h. h(f idx \<mapsto> g idx)) js (h(f j \<mapsto> g j)) (f i) = Some (g i)"
      by (rule Cons.IH)
    then show ?thesis by (simp only: fold_Cons o_apply)
  qed
qed

lemma slot_of_copy_back:
  assumes "distinct record_ids" and "length records = length record_ids"
    and "i < length record_ids"
  shows "slot_of (copy_back record_ids records record_map) (record_ids ! i)
           = Loaded (records ! i)"
proof -
  let ?f = "\<lambda>idx. if idx < length record_ids then record_ids ! idx else ''undefined''"
  have inj: "inj_on ?f (set [0..<length records])"
    using assms(1,2) by (auto simp: inj_on_def nth_eq_iff_index_eq)
  have "fold (\<lambda>idx h. h(?f idx \<mapsto> Loaded (records ! idx))) [0..<length records]
          (map_of record_map) (?f i) = Some (Loaded (records ! i))"
    using inj assms(2,3) by (intro fold_upd_at) simp_all
  then show ?thesis
    using assms(3) by (simp add: slot_of_def copy_back_def map_of_fold_update)
qed

lemma set_Object_keys: "set (Object_keys h) = fst ` set h"
  by (auto simp: Object_keys_def)

lemma distinct_Object_keys: "distinct (map fst h) \<Longrightarrow> distinct (Object_keys h)"
  by (auto simp: Object_keys_def)

lemma window_ids_Inr:
  "window_ids sp off lmt = Inr ids \<Longrightarrow> ids = map fst (window_slice sp off lmt)"
  by (simp add: window_ids_eq split: if_splits)

lemma distribute_expected:
  assumes "\<forall>s \<in> set ss. \<exists>ids. window_ids sp (offset s) (limit s) = Inr ids \<and> set ids \<subseteq> K"
    and "\<forall>k \<in> K. slot_of rm k
                     = Loaded (body (basePath env @ ''/records/'' @ ik @ ''/'' @ k))"
  shows "distribute sp rm ss = Done (map (expected_change env body ik sp) ss)"
  using assms(1)
proof (induction ss)
  case Nil
  then show ?case by simp
next
  case (Cons s ss)
  from Cons.prems obtain ids where w: "window_ids sp (offset s) (limit s) = Inr ids"
    and k: "set ids \<subseteq> K"
    by auto
  from w have i: "ids = map fst (window_slice sp (offset s) (limit s))"
    by (rule window_ids_Inr)
  have "map (slot_of rm) ids
          = map (\<lambda>k. Loaded (body (basePath env @ ''/records/'' @ ik @ ''/'' @ k))) ids"
    using k assms(2) by (intro map_cong) auto
  then have e: "Emit (sub_id s) ''change'' (ChangeData (map (slot_of rm) ids) (length sp))
                  = expected_change env body ik sp s"
    by (simp add: expected_change_def i comp_def)
  from Cons have "distribute sp rm ss = Done (map (expected_change env body ik sp) ss)"
    by simp
  with w e show ?case by simp
qed

lemma load_and_distribute_expected:
  assumes "\<forall>paths. getMulti env paths = Inr (map body paths)"
    and "distinct (map fst rm)"
    and "\<forall>s \<in> set ss. \<exists>ids. window_ids sp (offset s) (limit s) = Inr ids
                             \<and> set ids \<subseteq> fst ` set rm"
  shows "load_and_distribute env ik sp rm ss
           = Done (GetRecords ik (Object_keys rm) # map (expected_change env body ik sp) ss)"
proof -
  let ?ids = "Object_keys rm"
  let ?path = "\<lambda>k. basePath env @ ''/records/'' @ ik @ ''/'' @ k"
  let ?records = "map body (map ?path ?ids)"
  have g: "getRecords env ik ?ids = Inr ?records"
    using assms(1) by (simp add: getRecords_def)
  have "slot_of (copy_back ?ids ?records rm) k = Loaded (body (?path k))"
    if "k \<in> fst ` set rm" for k
  proof -
    from that have "k \<in> set ?ids" by (simp add: set_Object_keys)
    then obtain i where i: "i < length ?ids" "?ids ! i = k"
      by (auto simp: in_set_conv_nth)
    with slot_of_copy_back [OF distinct_Object_keys [OF assms(2)], of ?records i rm]
    show ?thesis by auto
  qed
  then have "distribute sp (copy_back ?ids ?records rm) ss
               = Done (map (expected_change env body ik sp) ss)"
    using assms(3) by (intro distribute_expected [where K = "fst ` set rm"]) auto
  with g show ?thesis by (simp add: load_and_distribute_def)
qed

lemma mark_windows_fits:
  "\<forall>s \<in> set ss. min (limit s) (length sp) = 0
                    \<or> offset s + min (limit s) (length sp) \<le> length sp
   \<Longrightarrow> \<exists>rm. mark_windows sp ss m = Inr rm"
  by (induction ss arbitrary: m) (auto simp: window_ids_eq)

text \<open>
  Windows that fit are served as the specification says. Let the store answer every
  \<open>getMulti\<close> with the bodies kept under the paths asked for, in order. Then a \<open>notifyChange\<close> of a
  subscriber or of the view, or a \<open>notifyVisible\<close>, that runs to its end has requested
  the records once and sent each subscriber concerned one \<open>change\<close> event, in the order
  of \<open>subs\<close>, whose records are the bodies of the slice
  \<open>sort_pairs[offset : min(offset + limit, len)]\<close> and whose total is \<open>len\<close>; and it
  does run to its end whenever, for each subscriber concerned, the loop does not run or
  \<open>offset + min(limit, len) \<le> len\<close>.
\<close>

theorem change_events_carry_slice:
  fixes env :: "('q, 'd, 'r) storage"
  assumes "sort_pairs v = Some sp" and "\<forall>paths. getMulti env paths = Inr (map body paths)"
  shows "(Subscriber_notifyChange env sub (Some v) = Done es \<longrightarrow>
            es = [GetRecords (sub_index_key sub)
                    (map fst (window_slice sp (offset sub) (limit sub))),
                  expected_change env body (sub_index_key sub) sp sub])
       \<and> (notifyChange env v = Done es' \<and> subs v \<noteq> [] \<longrightarrow>
            (\<exists>ids. es' = GetRecords (index_key v) ids
                          # map (expected_change env body (index_key v) sp) (map snd (subs v))))
       \<and> (notifyVisible env v i = Done es''
            \<and> filter (visible_to i) (map snd (subs v)) \<noteq> [] \<longrightarrow>
            (\<exists>ids. es'' = GetRecords (index_key v) ids
                           # map (expected_change env body (index_key v) sp)
                               (filter (visible_to i) (map snd (subs v)))))
       \<and> ((\<forall>s \<in> snd ` set (subs v). min (limit s) (length sp) = 0
                    \<or> offset s + min (limit s) (length sp) \<le> length sp) \<longrightarrow>
            (\<exists>es1 es2. notifyChange env v = Done es1 \<and> notifyVisible env v i = Done es2))
       \<and> (min (limit sub) (length sp) = 0
            \<or> offset sub + min (limit sub) (length sp) \<le> length sp \<longrightarrow>
            (\<exists>es3. Subscriber_notifyChange env sub (Some v) = Done es3))"
proof (intro conjI impI)
  assume "Subscriber_notifyChange env sub (Some v) = Done es"
  with assms show "es = [GetRecords (sub_index_key sub)
                    (map fst (window_slice sp (offset sub) (limit sub))),
                  expected_change env body (sub_index_key sub) sp sub]"
    by (auto simp: Subscriber_notifyChange_def getRecords_def expected_change_def comp_def
        split: sum.splits dest!: window_ids_Inr)
next
  assume a: "notifyChange env v = Done es' \<and> subs v \<noteq> []"
  with assms(1) obtain rm where m: "mark_windows sp (map snd (subs v)) ([] :: 'r record_map) = Inr rm"
    and l: "load_and_distribute env (index_key v) sp rm (map snd (subs v)) = Done es'"
    by (auto simp: notifyChange_def split: sum.splits)
  from mark_windows_keys [OF m] have "distinct (map fst rm)"
    and "\<forall>s \<in> set (map snd (subs v)). \<exists>ids. window_ids sp (offset s) (limit s) = Inr ids
                             \<and> set ids \<subseteq> fst ` set rm"
    by simp_all
  from load_and_distribute_expected [OF assms(2) this, of "index_key v"] l
  show "\<exists>ids. es' = GetRecords (index_key v) ids
                          # map (expected_change env body (index_key v) sp) (map snd (subs v))"
    by auto
next
  let ?chosen = "filter (visible_to i) (map snd (subs v))"
  assume a: "notifyVisible env v i = Done es'' \<and> ?chosen \<noteq> []"
  then have "subs v \<noteq> []" by auto
  with a assms(1) obtain rm where m: "mark_windows sp ?chosen ([] :: 'r record_map) = Inr rm"
    and l: "load_and_distribute env (index_key v) sp rm ?chosen = Done es''"
    by (auto simp: notifyVisible_def Let_def split: sum.splits)
  from mark_windows_keys [OF m] have "distinct (map fst rm)"
    and "\<forall>s \<in> set ?chosen. \<exists>ids. window_ids sp (offset s) (limit s) = Inr ids
                             \<and> set ids \<subseteq> fst ` set rm"
    by simp_all
  from load_and_distribute_expected [OF assms(2) this, of "index_key v"] l
  show "\<exists>ids. es'' = GetRecords (index_key v) ids
                           # map (expected_change env body (index_key v) sp) ?chosen"
    by auto
next
  let ?chosen = "filter (visible_to i) (map snd (subs v))"
  assume f: "\<forall>s \<in> snd ` set (subs v). min (limit s) (length sp) = 0
                    \<or> offset s + min (limit s) (length sp) \<le> length sp"
  then have "\<forall>s \<in> set (map snd (subs v)). min (limit s) (length sp) = 0
                    \<or> offset s + min (limit s) (length sp) \<le> length sp"
    by simp
  from mark_windows_fits [OF this] obtain rm1
    where m1: "mark_windows sp (map snd (subs v)) ([] :: 'r record_map) = Inr rm1"
    by blast
  from f have "\<forall>s \<in> set ?chosen. min (limit s) (length sp) = 0
                    \<or> offset s + min (limit s) (length sp) \<le> length sp"
    by auto
  from mark_windows_fits [OF this] obtain rm2
    where m2: "mark_windows sp ?chosen ([] :: 'r record_map) = Inr rm2"
    by blast
  from mark_windows_keys [OF m1] have k1: "distinct (map fst rm1)"
    "\<forall>s \<in> set (map snd (subs v)). \<exists>ids. window_ids sp (offset s) (limit s) = Inr ids
                             \<and> set ids \<subseteq> fst ` set rm1"
    by simp_all
  from mark_windows_keys [OF m2] have k2: "distinct (map fst rm2)"
    "\<forall>s \<in> set ?chosen. \<exists>ids. window_ids sp (offset s) (limit s) = Inr ids
                             \<and> set ids \<subseteq> fst ` set rm2"
    by simp_all
  have "\<exists>es1. notifyChange env v = Done es1"
    using assms(1) m1 load_and_distribute_expected [OF assms(2) k1, of "index_key v"]
    by (simp add: notifyChange_def)
  moreover have "\<exists>es2. notifyVisible env v i = Done es2"
    using assms(1) m2 load_and_distribute_expected [OF assms(2) k2, of "index_key v"]
    by (simp add: notifyVisible_def Let_def)
  ultimately show "\<exists>es1 es2. notifyChange env v = Done es1 \<and> notifyVisible env v i = Done es2"
    by blast
next
  assume "min (limit sub) (length sp) = 0
            \<or> offset sub + min (limit sub) (length sp) \<le> length sp"
  then show "\<exists>es3. Subscriber_notifyChange env sub (Some v) = Done es3"
    using assms by (simp add: Subscriber_notifyChange_def window_ids_eq getRecords_def)
qed

theorem change_events_carry_slice_witness:
  "\<exists>ids. notifyChange env_ok (view3 [(''s1'', sub_at ''s1'' 0 2), (''s2'', sub_at ''s2'' 1 2)])
     = Done [GetRecords ''myapp'' ids,
             Emit ''s1'' ''change''
               (ChangeData [Loaded ''unbase/records/myapp/a'', Loaded ''unbase/records/myapp/bb'']
                  3),
             Emit ''s2'' ''change''
               (ChangeData [Loaded ''unbase/records/myapp/bb'', Loaded ''unbase/records/myapp/ccc'']
                  3)]"
proof -
  let ?v = "view3 [(''s1'', sub_at ''s1'' 0 2), (''s2'', sub_at ''s2'' 1 2)]"
  have h1: "sort_pairs ?v = Some pairs3" by (simp add: view3_def)
  have h2: "\<forall>paths. getMulti env_ok paths = Inr (map (\<lambda>p. p) paths)"
    by (simp add: env_ok_def)
  note t = change_events_carry_slice [OF h1 h2]
  have f: "\<forall>s \<in> snd ` set (subs ?v). min (limit s) (length pairs3) = 0
                    \<or> offset s + min (limit s) (length pairs3) \<le> length pairs3"
    by (simp add: view3_def sub_at_def pairs3_def)
  with t obtain es1 where d: "notifyChange env_ok ?v = Done es1" by blast
  have n: "subs ?v \<noteq> []" by (simp add: view3_def)
  with t d obtain ids where
    e: "es1 = GetRecords (index_key ?v) ids
              # map (expected_change env_ok (\<lambda>p. p) (index_key ?v) pairs3) (map snd (subs ?v))"
    by blast
  have "map (expected_change env_ok (\<lambda>p. p) (index_key ?v) pairs3) (map snd (subs ?v))
          = [Emit ''s1'' ''change''
               (ChangeData [Loaded ''unbase/records/myapp/a'', Loaded ''unbase/records/myapp/bb'']
                  3),
             Emit ''s2'' ''change''
               (ChangeData [Loaded ''unbase/records/myapp/bb'', Loaded ''unbase/records/myapp/ccc'']
                  3)]"
    by (simp add: expected_change_def window_slice_def view3_def sub_at_def pairs3_def env_ok_def)
  with d e have "notifyChange env_ok ?v
     = Done [GetRecords ''myapp'' ids,
             Emit ''s1'' ''change''
               (ChangeData [Loaded ''unbase/records/myapp/a'', Loaded ''unbase/records/myapp/bb'']
                  3),
             Emit ''s2'' ''change''
               (ChangeData [Loaded ''unbase/records/myapp/bb'', Loaded ''unbase/records/myapp/ccc'']
                  3)]"
    by (simp add: view3_def)
  then show ?thesis by blast
qed

subsection \<open>The update rule\<close>

lemma old_hit_iff:
  "results v = Some res
   \<Longrightarrow> (old_hit v st = Inr b)
       = (res ''hasOwnProperty'' = None \<and> b = (res (state_id st) \<noteq> None))"
  by (auto simp: old_hit_def js_hasOwnProperty_def)

lemma new_hit_iff:
  "(new_hit env v st = Inr b)
     = (searchSingle env (query v) (state_id st) (idx_data st) ''hasOwnProperty'' = None
        \<and> b = (searchSingle env (query v) (state_id st) (idx_data st) (state_id st) \<noteq> None))"
  by (auto simp: new_hit_def js_hasOwnProperty_def Let_def)

lemma window_fits_ids:
  "window_fits sp sub
   \<Longrightarrow> window_ids sp (offset sub) (limit sub)
       = Inr (map fst (window_slice sp (offset sub) (limit sub)))"
  by (simp add: window_ids_eq window_fits_def)

lemma distribute_fits:
  "\<forall>s \<in> set ss. window_fits sp s
   \<Longrightarrow> \<exists>es. distribute sp rm ss = Done es \<and> length es = length ss
            \<and> change_targets es = map sub_id ss"
proof (induction ss)
  case Nil
  then show ?case by simp
next
  case (Cons s ss)
  then obtain es where "distribute sp rm ss = Done es" and "length es = length ss"
    and "change_targets es = map sub_id ss"
    by auto
  moreover from Cons.prems have "window_fits sp s" by simp
  ultimately show ?case by (simp add: window_fits_ids)
qed

lemma mark_windows_dom:
  "mark_windows sp ss m = Inr rm \<Longrightarrow> fst ` set rm = fst ` set m \<union> window_records sp ss"
proof (induction ss arbitrary: m)
  case Nil
  then show ?case by (simp add: window_records_def)
next
  case (Cons a ss)
  from Cons.prems obtain ids where w: "window_ids sp (offset a) (limit a) = Inr ids"
    and r: "mark_windows sp ss (mark_ids ids m) = Inr rm"
    by (auto split: sum.splits)
  from window_ids_Inr [OF w]
  have "set ids = fst ` set (window_slice sp (offset a) (limit a))"
    by simp
  moreover from Cons.IH [OF r]
  have "fst ` set rm = set ids \<union> fst ` set m \<union> window_records sp ss"
    by (simp add: mark_ids_keys(1))
  ultimately show ?case by (auto simp: window_records_def)
qed

lemma load_and_distribute_outcome:
  assumes "out = load_and_distribute env ik sp rm ss"
    and "mark_windows sp ss [] = Inr rm" and "\<forall>s \<in> set ss. window_fits sp s"
    and "n = length ss"
  shows "\<exists>ids. distinct ids \<and> set ids = window_records sp ss
           \<and> (case getRecords env ik ids of
                 Inl err \<Rightarrow>
                   out = Done [GetRecords ik ids,
                               LogError ''storage'' (''Failed to fetch records: '' @ err)]
               | Inr records \<Rightarrow>
                   (\<exists>es. out = Done (GetRecords ik ids # es)
                         \<and> length es = n \<and> change_targets es = map sub_id ss))"
proof -
  let ?ids = "Object_keys rm"
  from mark_windows_keys [OF assms(2)] have "distinct (map fst rm)" by simp
  then have d: "distinct ?ids" by (rule distinct_Object_keys)
  from mark_windows_dom [OF assms(2)] have s: "set ?ids = window_records sp ss"
    by (simp add: set_Object_keys)
  have "case getRecords env ik ?ids of
          Inl err \<Rightarrow>
            out = Done [GetRecords ik ?ids,
                        LogError ''storage'' (''Failed to fetch records: '' @ err)]
        | Inr records \<Rightarrow>
            (\<exists>es. out = Done (GetRecords ik ?ids # es)
                  \<and> length es = n \<and> change_targets es = map sub_id ss)"
  proof (cases "getRecords env ik ?ids")
    case (Inl err)
    then show ?thesis by (simp add: assms(1) load_and_distribute_def)
  next
    case (Inr records)
    from distribute_fits [OF assms(3), of "copy_back ?ids records rm"]
    obtain es where "distribute sp (copy_back ?ids records rm) ss = Done es"
      and "length es = length ss" and "change_targets es = map sub_id ss"
      by blast
    with Inr show ?thesis by (simp add: assms(1,4) load_and_distribute_def)
  qed
  with d s show ?thesis by blast
qed

lemma mark_windows_Inr:
  "\<forall>s \<in> set ss. window_fits sp s \<Longrightarrow> \<exists>rm. mark_windows sp ss m = Inr rm"
  unfolding window_fits_def by (rule mark_windows_fits)

lemma notifyChange_outcome:
  fixes env :: "('q, 'd, 'r) storage"
  assumes "sort_pairs u = Some ps" and "subs u \<noteq> []"
    and "\<forall>s \<in> set (map snd (subs u)). window_fits ps s"
  shows "\<exists>ids. distinct ids \<and> set ids = window_records ps (map snd (subs u))
           \<and> (case getRecords env (index_key u) ids of
                 Inl err \<Rightarrow>
                   notifyChange env u
                     = Done [GetRecords (index_key u) ids,
                             LogError ''storage'' (''Failed to fetch records: '' @ err)]
               | Inr records \<Rightarrow>
                   (\<exists>es. notifyChange env u = Done (GetRecords (index_key u) ids # es)
                         \<and> length es = length (subs u)
                         \<and> change_targets es = map sub_id (map snd (subs u))))"
proof -
  from mark_windows_Inr [OF assms(3)] obtain rm
    where m: "mark_windows ps (map snd (subs u)) ([] :: 'r record_map) = Inr rm"
    by blast
  have e: "notifyChange env u = load_and_distribute env (index_key u) ps rm (map snd (subs u))"
    using assms(1,2) m by (simp add: notifyChange_def)
  have "length (subs u) = length (map snd (subs u))" by simp
  from load_and_distribute_outcome [OF e m assms(3) this] show ?thesis .
qed

lemma notifyVisible_outcome:
  fixes env :: "('q, 'd, 'r) storage"
  assumes "sort_pairs v = Some sp"
    and "chosen = filter (\<lambda>sub. offset sub \<le> i \<and> i < offset sub + limit sub) (map snd (subs v))"
  shows "(chosen = [] \<longrightarrow> notifyVisible env v i = Done [])
       \<and> (chosen \<noteq> [] \<and> (\<forall>s \<in> set chosen. window_fits sp s) \<longrightarrow>
            (\<exists>ids. distinct ids \<and> set ids = window_records sp chosen
               \<and> (case getRecords env (index_key v) ids of
                     Inl err \<Rightarrow>
                       notifyVisible env v i
                         = Done [GetRecords (index_key v) ids,
                                 LogError ''storage'' (''Failed to fetch records: '' @ err)]
                   | Inr records \<Rightarrow>
                       (\<exists>es. notifyVisible env v i = Done (GetRecords (index_key v) ids # es)
                             \<and> length es = length chosen
                             \<and> change_targets es = map sub_id chosen))))"
proof (intro conjI impI)
  have c: "chosen = filter (visible_to i) (map snd (subs v))"
    by (simp add: assms(2) visible_to_def [abs_def])
  { assume "chosen = []"
    with c assms(1) show "notifyVisible env v i = Done []"
      by (simp add: notifyVisible_def Let_def) }
  { assume a: "chosen \<noteq> [] \<and> (\<forall>s \<in> set chosen. window_fits sp s)"
    then have f: "\<forall>s \<in> set chosen. window_fits sp s" and n: "chosen \<noteq> []" by simp_all
    from mark_windows_Inr [OF f] obtain rm
      where m: "mark_windows sp chosen ([] :: 'r record_map) = Inr rm"
      by blast
    from n c have "subs v \<noteq> []" by auto
    then have e: "notifyVisible env v i = load_and_distribute env (index_key v) sp rm chosen"
      using assms(1) m n c by (simp add: notifyVisible_def Let_def)
    from load_and_distribute_outcome [OF e m f refl]
    show "\<exists>ids. distinct ids \<and> set ids = window_records sp chosen
               \<and> (case getRecords env (index_key v) ids of
                     Inl err \<Rightarrow>
                       notifyVisible env v i
                         = Done [GetRecords (index_key v) ids,
                                 LogError ''storage'' (''Failed to fetch records: '' @ err)]
                   | Inr records \<Rightarrow>
                       (\<exists>es. notifyVisible env v i = Done (GetRecords (index_key v) ids # es)
                             \<and> length es = length chosen
                             \<and> change_targets es = map sub_id chosen))" . }
qed

text \<open>
  C3 as it is stated does not hold: a record that enters the view is appended and the
  view is resorted, but when the store fails to load the records of the windows the
  subscriber, whose window holds the new record, is sent nothing; the failure is logged.
\<close>

theorem update_insert_counterexample:
  "sort_pairs (fst (update env_fail (view3 [(''s1'', sub_at ''s1'' 0 2)])
                      (state_of ''insert'' ''dddd'' True 0)))
     = Some [(''dddd'', JNum 0), (''a'', JNum 1), (''bb'', JNum 2), (''ccc'', JNum 3)]
   \<and> snd (update env_fail (view3 [(''s1'', sub_at ''s1'' 0 2)])
             (state_of ''insert'' ''dddd'' True 0))
     = Done [GetRecords ''myapp'' [''dddd'', ''a''],
             LogError ''storage'' ''Failed to fetch records: io'']
   \<and> change_targets
         (effects_of (snd (update env_fail (view3 [(''s1'', sub_at ''s1'' 0 2)])
                             (state_of ''insert'' ''dddd'' True 0))))
     = []"
proof -
  let ?v = "view3 [(''s1'', sub_at ''s1'' 0 2)]"
  let ?add = "state_of ''insert'' ''dddd'' True 0"
  let ?res = "[''a'' \<mapsto> 0, ''bb'' \<mapsto> 1, ''ccc'' \<mapsto> 2] :: record_id \<rightharpoonup> nat"
  let ?sp = "[(''dddd'', JNum 0), (''a'', JNum 1), (''bb'', JNum 2), (''ccc'', JNum 3)]"
  have o: "old_hit ?v ?add = Inr False"
    by (simp add: old_hit_def js_hasOwnProperty_def view3_def state_of_def)
  have n: "new_hit env_fail ?v ?add = Inr True"
    by (simp add: new_hit_def js_hasOwnProperty_def state_of_def env_fail_def env_ok_def)
  have u: "update env_fail ?v ?add = addRecord env_fail ?v ?add"
    by (simp add: update_def o n) (simp add: state_of_def)
  have a: "addRecord env_fail ?v ?add
       = resortAndNotify env_fail
           (?v\<lparr>results := Some (?res(''dddd'' \<mapsto> 1)),
               sort_pairs := Some (pairs3 @ [(''dddd'', JNum 0)])\<rparr>)"
    by (simp add: addRecord_def Let_def view3_def state_of_def sort_value_of_def js_get_def)
  have s: "js_sort cmp_key (pairs3 @ [(''dddd'', JNum 0)]) = ?sp"
    by (simp add: js_sort_def pairs3_def cmp_key_def)
  have r: "resortAndNotify env_fail
             (?v\<lparr>results := Some R, sort_pairs := Some (pairs3 @ [(''dddd'', JNum 0)])\<rparr>)
       = (?v\<lparr>results := Some (store_positions ?sp R), sort_pairs := Some ?sp\<rparr>,
          notifyChange env_fail
            (?v\<lparr>results := Some (store_positions ?sp R), sort_pairs := Some ?sp\<rparr>))" for R
    by (simp add: resortAndNotify_def Let_def s view3_def)
  have w: "window_ids ?sp 0 2 = Inr [''dddd'', ''a'']"
    by (simp add: window_ids_def pair_id_at_def upt_rec)
  have g: "getRecords env_fail ''myapp'' ids = Inl ''io''" for ids
    by (simp add: getRecords_def env_fail_def env_ok_def)
  have k: "notifyChange env_fail (?v\<lparr>results := R, sort_pairs := Some ?sp\<rparr>)
       = Done [GetRecords ''myapp'' [''dddd'', ''a''],
               LogError ''storage'' ''Failed to fetch records: io'']" for R
    by (simp add: notifyChange_def view3_def sub_at_def w mark_ids_def
        load_and_distribute_def Object_keys_eval g)
  show ?thesis unfolding u a r k by simp
qed

text \<open>
  C3, amended. For a state with action \<open>insert\<close>, on a view whose search has finished,
  with \<open>old_hit\<close> and \<open>new_hit\<close> the answers of the two calls of \<open>hasOwnProperty\<close>
  (whether the id is a key of \<open>results\<close>, and of the answer of \<open>_searchSingle\<close>):
  a record that was not a hit and is one now is appended to \<open>sort_pairs\<close> with its sort
  value and marked in \<open>results\<close>, then the view resorts and calls \<open>notifyChange\<close>;
  a record that was a hit and is none now is spliced out at \<open>results[id]\<close> and deleted
  from \<open>results\<close>, then the view resorts and calls \<open>notifyChange\<close>;
  a record that stays a hit, the view sorting by a sorter, has its stored sort value
  compared with \<open>idx_data._sorters[sort_by]\<close>: when they differ the pair is updated and
  the view resorts and calls \<open>notifyChange\<close>, when they do not the view calls
  \<open>notifyVisible\<close> with the position; with the natural sort it calls \<open>notifyVisible\<close>.
  The sort value is the id for the natural sort and the sorter's entry otherwise.

  Who is then notified: where the windows of the subscribers fit, \<open>notifyChange\<close> asks
  the store once for the records of all windows; when the load succeeds every subscriber
  is sent one \<open>change\<close> event, in the order of \<open>subs\<close>, and when it fails the error
  is logged and nobody is sent anything. \<open>notifyVisible\<close> does the same for the
  subscribers with \<open>offset \<le> i < offset + limit\<close>, and nothing when there is none.
\<close>

theorem update_insert_rule:
  fixes env :: "('q, 'd, 'r) storage"
  assumes "action st = ''insert''" and "results v = Some res" and "sort_pairs v = Some sp"
    and "comparator v = Some cmp"
  shows "(old_hit v st = Inr False \<and> new_hit env v st = Inr True \<longrightarrow>
            (let sp' = js_sort cmp (sp @ [(state_id st, sort_value_of v st)]);
                 v' = v\<lparr>sort_pairs := Some sp',
                         results := Some (store_positions sp' (res(state_id st \<mapsto> 1)))\<rparr>
             in update env v st = (v', notifyChange env v')))
       \<and> (old_hit v st = Inr True \<and> new_hit env v st = Inr False
            \<and> res (state_id st) = Some i \<longrightarrow>
            (let sp' = js_sort cmp (splice1 sp i);
                 v' = v\<lparr>sort_pairs := Some sp',
                         results := Some (store_positions sp' (res(state_id st := None)))\<rparr>
             in update env v st = (v', notifyChange env v')))
       \<and> (old_hit v st = Inr True \<and> new_hit env v st = Inr True \<and> sort_by v \<noteq> ''_id''
            \<and> res (state_id st) = Some i \<and> i < length sp \<longrightarrow>
            (if \<not> js_loose_eq (toNumber env) (js_get (sorters (idx_data st)) (sort_by v))
                    (snd (sp ! i))
             then (let sp' = js_sort cmp
                               (sp[i := (fst (sp ! i), js_get (sorters (idx_data st)) (sort_by v))]);
                       v' = v\<lparr>sort_pairs := Some sp', results := Some (store_positions sp' res)\<rparr>
                   in update env v st = (v', notifyChange env v'))
             else update env v st = (v, notifyVisible env v i)))
       \<and> (old_hit v st = Inr True \<and> new_hit env v st = Inr True \<and> sort_by v = ''_id''
            \<and> res (state_id st) = Some i \<longrightarrow>
            update env v st = (v, notifyVisible env v i))
       \<and> sort_value_of v st
            = (if sort_by v = ''_id'' then JStr (state_id st)
               else js_get (sorters (idx_data st)) (sort_by v))
       \<and> (old_hit v st = Inr b)
            = (res ''hasOwnProperty'' = None \<and> b = (res (state_id st) \<noteq> None))
       \<and> (new_hit env v st = Inr b')
            = (searchSingle env (query v) (state_id st) (idx_data st) ''hasOwnProperty'' = None
               \<and> b' = (searchSingle env (query v) (state_id st) (idx_data st) (state_id st)
                         \<noteq> None))
       \<and> (sort_pairs u = Some ps \<and> subs u \<noteq> []
            \<and> (\<forall>s \<in> set (map snd (subs u)). window_fits ps s) \<longrightarrow>
            (\<exists>ids. distinct ids \<and> set ids = window_records ps (map snd (subs u))
               \<and> (case getRecords env (index_key u) ids of
                     Inl err \<Rightarrow>
                       notifyChange env u
                         = Done [GetRecords (index_key u) ids,
                                 LogError ''storage'' (''Failed to fetch records: '' @ err)]
                   | Inr records \<Rightarrow>
                       (\<exists>es. notifyChange env u = Done (GetRecords (index_key u) ids # es)
                             \<and> length es = length (subs u)
                             \<and> change_targets es = map sub_id (map snd (subs u))))))
       \<and> (chosen = filter (\<lambda>sub. offset sub \<le> i \<and> i < offset sub + limit sub)
                      (map snd (subs v)) \<longrightarrow>
            (chosen = [] \<longrightarrow> notifyVisible env v i = Done [])
            \<and> (chosen \<noteq> [] \<and> (\<forall>s \<in> set chosen. window_fits sp s) \<longrightarrow>
                 (\<exists>ids. distinct ids \<and> set ids = window_records sp chosen
                    \<and> (case getRecords env (index_key v) ids of
                          Inl err \<Rightarrow>
                            notifyVisible env v i
                              = Done [GetRecords (index_key v) ids,
                                      LogError ''storage'' (''Failed to fetch records: '' @ err)]
                        | Inr records \<Rightarrow>
                            (\<exists>es. notifyVisible env v i
                                    = Done (GetRecords (index_key v) ids # es)
                                  \<and> length es = length chosen
                                  \<and> change_targets es = map sub_id chosen)))))"
proof (intro conjI impI)
  assume "old_hit v st = Inr False \<and> new_hit env v st = Inr True"
  with assms show "let sp' = js_sort cmp (sp @ [(state_id st, sort_value_of v st)]);
                 v' = v\<lparr>sort_pairs := Some sp',
                         results := Some (store_positions sp' (res(state_id st \<mapsto> 1)))\<rparr>
             in update env v st = (v', notifyChange env v')"
    by (simp add: update_def addRecord_def resortAndNotify_def Let_def)
next
  assume "old_hit v st = Inr True \<and> new_hit env v st = Inr False \<and> res (state_id st) = Some i"
  with assms show "let sp' = js_sort cmp (splice1 sp i);
                 v' = v\<lparr>sort_pairs := Some sp',
                         results := Some (store_positions sp' (res(state_id st := None)))\<rparr>
             in update env v st = (v', notifyChange env v')"
    by (simp add: update_def removeRecord_def resortAndNotify_def Let_def)
next
  assume "old_hit v st = Inr True \<and> new_hit env v st = Inr True \<and> sort_by v \<noteq> ''_id''
            \<and> res (state_id st) = Some i \<and> i < length sp"
  with assms show "if \<not> js_loose_eq (toNumber env) (js_get (sorters (idx_data st)) (sort_by v))
                    (snd (sp ! i))
             then (let sp' = js_sort cmp
                               (sp[i := (fst (sp ! i), js_get (sorters (idx_data st)) (sort_by v))]);
                       v' = v\<lparr>sort_pairs := Some sp', results := Some (store_positions sp' res)\<rparr>
                   in update env v st = (v', notifyChange env v'))
             else update env v st = (v, notifyVisible env v i)"
    by (simp add: update_def update_sorted_def resortAndNotify_def Let_def)
next
  assume "old_hit v st = Inr True \<and> new_hit env v st = Inr True \<and> sort_by v = ''_id''
            \<and> res (state_id st) = Some i"
  with assms show "update env v st = (v, notifyVisible env v i)"
    by (simp add: update_def)
next
  show "sort_value_of v st
            = (if sort_by v = ''_id'' then JStr (state_id st)
               else js_get (sorters (idx_data st)) (sort_by v))"
    by (simp add: sort_value_of_def)
next
  from assms(2) show "(old_hit v st = Inr b)
            = (res ''hasOwnProperty'' = None \<and> b = (res (state_id st) \<noteq> None))"
    by (rule old_hit_iff)
next
  show "(new_hit env v st = Inr b')
            = (searchSingle env (query v) (state_id st) (idx_data st) ''hasOwnProperty'' = None
               \<and> b' = (searchSingle env (query v) (state_id st) (idx_data st) (state_id st)
                         \<noteq> None))"
    by (rule new_hit_iff)
next
  assume "sort_pairs u = Some ps \<and> subs u \<noteq> []
            \<and> (\<forall>s \<in> set (map snd (subs u)). window_fits ps s)"
  then have "sort_pairs u = Some ps" and "subs u \<noteq> []"
    and "\<forall>s \<in> set (map snd (subs u)). window_fits ps s"
    by simp_all
  then show "\<exists>ids. distinct ids \<and> set ids = window_records ps (map snd (subs u))
               \<and> (case getRecords env (index_key u) ids of
                     Inl err \<Rightarrow>
                       notifyChange env u
                         = Done [GetRecords (index_key u) ids,
                                 LogError ''storage'' (''Failed to fetch records: '' @ err)]
                   | Inr records \<Rightarrow>
                       (\<exists>es. notifyChange env u = Done (GetRecords (index_key u) ids # es)
                             \<and> length es = length (subs u)
                             \<and> change_targets es = map sub_id (map snd (subs u))))"
    by (rule notifyChange_outcome)
next
  assume c: "chosen = filter (\<lambda>sub. offset sub \<le> i \<and> i < offset sub + limit sub)
                        (map snd (subs v))"
  note n = notifyVisible_outcome [OF assms(3) c, of env]
  { assume "chosen = []"
    with n show "notifyVisible env v i = Done []" by blast }
  { assume "chosen \<noteq> [] \<and> (\<forall>s \<in> set chosen. window_fits sp s)"
    with n show "\<exists>ids. distinct ids \<and> set ids = window_records sp chosen
                    \<and> (case getRecords env (index_key v) ids of
                          Inl err \<Rightarrow>
                            notifyVisible env v i
                              = Done [GetRecords (index_key v) ids,
                                      LogError ''storage'' (''Failed to fetch records: '' @ err)]
                        | Inr records \<Rightarrow>
                            (\<exists>es. notifyVisible env v i
                                    = Done (GetRecords (index_key v) ids # es)
                                  \<and> length es = length chosen
                                  \<and> change_targets es = map sub_id chosen))"
      by blast }
qed

theorem update_insert_rule_witness:
  "sort_pairs (fst (update env_ok (view3 [(''s1'', sub_at ''s1'' 0 2)])
                      (state_of ''insert'' ''dddd'' True 0)))
     = Some [(''dddd'', JNum 0), (''a'', JNum 1), (''bb'', JNum 2), (''ccc'', JNum 3)]
   \<and> map (the (results (fst (update env_ok (view3 [(''s1'', sub_at ''s1'' 0 2)])
                                (state_of ''insert'' ''dddd'' True 0)))))
         [''dddd'', ''a'', ''bb'', ''ccc'']
     = [Some 0, Some 1, Some 2, Some 3]
   \<and> snd (update env_ok (view3 [(''s1'', sub_at ''s1'' 0 2)]) (state_of ''insert'' ''dddd'' True 0))
     = Done [GetRecords ''myapp'' [''dddd'', ''a''],
             Emit ''s1'' ''change''
               (ChangeData [Loaded ''unbase/records/myapp/dddd'',
                            Loaded ''unbase/records/myapp/a''] 4)]
   \<and> sort_pairs (fst (update env_ok (view3 [(''s1'', sub_at ''s1'' 0 2)])
                        (state_of ''insert'' ''a'' False 1)))
     = Some [(''bb'', JNum 2), (''ccc'', JNum 3)]
   \<and> map (the (results (fst (update env_ok (view3 [(''s1'', sub_at ''s1'' 0 2)])
                                (state_of ''insert'' ''a'' False 1)))))
         [''a'', ''bb'', ''ccc'']
     = [None, Some 0, Some 1]
   \<and> snd (update env_ok (view3 [(''s1'', sub_at ''s1'' 0 2)]) (state_of ''insert'' ''a'' False 1))
     = Done [GetRecords ''myapp'' [''bb'', ''ccc''],
             Emit ''s1'' ''change''
               (ChangeData [Loaded ''unbase/records/myapp/bb'',
                            Loaded ''unbase/records/myapp/ccc''] 2)]
   \<and> sort_pairs (fst (update env_ok (view3 [(''s1'', sub_at ''s1'' 0 2)])
                        (state_of ''insert'' ''a'' True 5)))
     = Some [(''bb'', JNum 2), (''ccc'', JNum 3), (''a'', JNum 5)]
   \<and> snd (update env_ok (view3 [(''s1'', sub_at ''s1'' 0 2)]) (state_of ''insert'' ''a'' True 5))
     = Done [GetRecords ''myapp'' [''bb'', ''ccc''],
             Emit ''s1'' ''change''
               (ChangeData [Loaded ''unbase/records/myapp/bb'',
                            Loaded ''unbase/records/myapp/ccc''] 3)]
   \<and> update env_ok (view3 [(''s1'', sub_at ''s1'' 0 2), (''s2'', sub_at ''s2'' 2 1)])
         (state_of ''insert'' ''ccc'' True 3)
     = (view3 [(''s1'', sub_at ''s1'' 0 2), (''s2'', sub_at ''s2'' 2 1)],
        Done [GetRecords ''myapp'' [''ccc''],
              Emit ''s2'' ''change'' (ChangeData [Loaded ''unbase/records/myapp/ccc''] 3)])
   \<and> (\<exists>ids es. notifyChange env_ok
                     (view3 [(''s1'', sub_at ''s1'' 0 2), (''s2'', sub_at ''s2'' 2 1)])
                   = Done (GetRecords ''myapp'' ids # es)
               \<and> set ids = {''a'', ''bb'', ''ccc''} \<and> change_targets es = [''s1'', ''s2''])
   \<and> (\<exists>ids. notifyChange env_fail
                  (view3 [(''s1'', sub_at ''s1'' 0 2), (''s2'', sub_at ''s2'' 2 1)])
                = Done [GetRecords ''myapp'' ids,
                        LogError ''storage'' ''Failed to fetch records: io''])
   \<and> notifyVisible env_ok (view3 [(''s1'', sub_at ''s1'' 0 2), (''s2'', sub_at ''s2'' 2 1)]) 7
       = Done []"
proof -
  let ?v = "view3 [(''s1'', sub_at ''s1'' 0 2)]"
  let ?res = "[''a'' \<mapsto> 0, ''bb'' \<mapsto> 1, ''ccc'' \<mapsto> 2] :: record_id \<rightharpoonup> nat"
  have a2: "results (view3 ss) = Some ?res" for ss by (simp add: view3_def)
  have a3: "sort_pairs (view3 ss) = Some pairs3" for ss by (simp add: view3_def)
  have a4: "comparator (view3 ss) = Some cmp_key" for ss by (simp add: view3_def)
  have a1: "action (state_of ''insert'' rid hit c) = ''insert''" for rid hit c
    by (simp add: state_of_def)
  \<comment> \<open>a record enters the view\<close>
  let ?add = "state_of ''insert'' ''dddd'' True 0"
  have h1: "old_hit ?v ?add = Inr False \<and> new_hit env_ok ?v ?add = Inr True"
    by (simp add: old_hit_def new_hit_def js_hasOwnProperty_def view3_def state_of_def
        env_ok_def)
  note u1 = update_insert_rule
    [where env = env_ok, OF a1 a2 a3 a4, THEN conjunct1, THEN mp, OF h1, unfolded Let_def]
  have s1: "js_sort cmp_key (pairs3 @ [(state_id ?add, sort_value_of ?v ?add)])
             = [(''dddd'', JNum 0), (''a'', JNum 1), (''bb'', JNum 2), (''ccc'', JNum 3)]"
    by (simp add: js_sort_def pairs3_def state_of_def sort_value_of_def view3_def js_get_def
        cmp_key_def)
  have w1: "window_ids [(''dddd'', JNum 0), (''a'', JNum 1), (''bb'', JNum 2), (''ccc'', JNum 3)] 0 2
             = Inr [''dddd'', ''a'']"
    by (simp add: window_ids_def pair_id_at_def upt_rec)
  have n1: "notifyChange env_ok
           (?v\<lparr>sort_pairs := Some [(''dddd'', JNum 0), (''a'', JNum 1), (''bb'', JNum 2), (''ccc'', JNum 3)],
             results := r\<rparr>)
       = Done [GetRecords ''myapp'' [''dddd'', ''a''],
              Emit ''s1'' ''change''
                (ChangeData [Loaded ''unbase/records/myapp/dddd'',
                             Loaded ''unbase/records/myapp/a''] 4)]" for r
    by (simp add: notifyChange_def view3_def sub_at_def w1
        mark_ids_def load_and_distribute_def Object_keys_eval getRecords_def env_ok_def copy_back_def slot_of_def)
  have A: "sort_pairs (fst (update env_ok ?v ?add))
     = Some [(''dddd'', JNum 0), (''a'', JNum 1), (''bb'', JNum 2), (''ccc'', JNum 3)]"
    unfolding u1 s1 by simp
  have B: "map (the (results (fst (update env_ok ?v ?add)))) [''dddd'', ''a'', ''bb'', ''ccc'']
     = [Some 0, Some 1, Some 2, Some 3]"
    unfolding u1 s1 by (simp add: store_positions_def state_of_def)
  have C: "snd (update env_ok ?v ?add)
     = Done [GetRecords ''myapp'' [''dddd'', ''a''],
             Emit ''s1'' ''change''
               (ChangeData [Loaded ''unbase/records/myapp/dddd'',
                            Loaded ''unbase/records/myapp/a''] 4)]"
    unfolding u1 s1 n1 by simp
  \<comment> \<open>a record leaves the view\<close>
  let ?rem = "state_of ''insert'' ''a'' False 1"
  have h2: "old_hit ?v ?rem = Inr True \<and> new_hit env_ok ?v ?rem = Inr False
              \<and> ?res (state_id ?rem) = Some 0"
    by (simp add: old_hit_def new_hit_def js_hasOwnProperty_def view3_def state_of_def
        env_ok_def)
  note u2 = update_insert_rule
    [where env = env_ok and i = 0, OF a1 a2 a3 a4, THEN conjunct2, THEN conjunct1, THEN mp,
     OF h2, unfolded Let_def]
  have s2: "js_sort cmp_key (splice1 pairs3 0) = [(''bb'', JNum 2), (''ccc'', JNum 3)]"
    by (simp add: js_sort_def pairs3_def splice1_def cmp_key_def)
  have w2: "window_ids [(''bb'', JNum 2), (''ccc'', JNum 3)] 0 2 = Inr [''bb'', ''ccc'']"
    by (simp add: window_ids_def pair_id_at_def upt_rec)
  have n2: "notifyChange env_ok
           (?v\<lparr>sort_pairs := Some [(''bb'', JNum 2), (''ccc'', JNum 3)], results := r\<rparr>)
       = Done [GetRecords ''myapp'' [''bb'', ''ccc''],
              Emit ''s1'' ''change''
                (ChangeData [Loaded ''unbase/records/myapp/bb'',
                             Loaded ''unbase/records/myapp/ccc''] 2)]" for r
    by (simp add: notifyChange_def view3_def sub_at_def w2
        mark_ids_def load_and_distribute_def Object_keys_eval getRecords_def env_ok_def copy_back_def slot_of_def)
  have D: "sort_pairs (fst (update env_ok ?v ?rem)) = Some [(''bb'', JNum 2), (''ccc'', JNum 3)]"
    unfolding u2 s2 by simp
  have E: "map (the (results (fst (update env_ok ?v ?rem)))) [''a'', ''bb'', ''ccc'']
     = [None, Some 0, Some 1]"
    unfolding u2 s2 by (simp add: store_positions_def state_of_def)
  have F: "snd (update env_ok ?v ?rem)
     = Done [GetRecords ''myapp'' [''bb'', ''ccc''],
             Emit ''s1'' ''change''
               (ChangeData [Loaded ''unbase/records/myapp/bb'',
                            Loaded ''unbase/records/myapp/ccc''] 2)]"
    unfolding u2 s2 n2 by simp
  \<comment> \<open>a record stays and its sort value changes\<close>
  let ?chg = "state_of ''insert'' ''a'' True 5"
  have h3: "old_hit ?v ?chg = Inr True \<and> new_hit env_ok ?v ?chg = Inr True
              \<and> sort_by ?v \<noteq> ''_id'' \<and> ?res (state_id ?chg) = Some 0 \<and> 0 < length pairs3"
    by (simp add: old_hit_def new_hit_def js_hasOwnProperty_def view3_def state_of_def
        env_ok_def pairs3_def)
  have c3: "\<not> js_loose_eq (toNumber env_ok) (js_get (sorters (idx_data ?chg)) (sort_by ?v))
                (snd (pairs3 ! 0))"
    by (simp add: state_of_def view3_def js_get_def pairs3_def)
  note u3 = update_insert_rule
    [where env = env_ok and i = 0, OF a1 a2 a3 a4, THEN conjunct2, THEN conjunct2,
     THEN conjunct1, THEN mp, OF h3, unfolded Let_def if_P [OF c3]]
  have s3: "js_sort cmp_key
              (pairs3[0 := (fst (pairs3 ! 0), js_get (sorters (idx_data ?chg)) (sort_by ?v))])
            = [(''bb'', JNum 2), (''ccc'', JNum 3), (''a'', JNum 5)]"
    by (simp add: js_sort_def pairs3_def cmp_key_def state_of_def view3_def js_get_def)
  have w3: "window_ids [(''bb'', JNum 2), (''ccc'', JNum 3), (''a'', JNum 5)] 0 2
              = Inr [''bb'', ''ccc'']"
    by (simp add: window_ids_def pair_id_at_def upt_rec)
  have n3: "notifyChange env_ok
           (?v\<lparr>sort_pairs := Some [(''bb'', JNum 2), (''ccc'', JNum 3), (''a'', JNum 5)],
                results := r\<rparr>)
       = Done [GetRecords ''myapp'' [''bb'', ''ccc''],
              Emit ''s1'' ''change''
                (ChangeData [Loaded ''unbase/records/myapp/bb'',
                             Loaded ''unbase/records/myapp/ccc''] 3)]" for r
    by (simp add: notifyChange_def view3_def sub_at_def w3
        mark_ids_def load_and_distribute_def Object_keys_eval getRecords_def env_ok_def copy_back_def slot_of_def)
  have G: "sort_pairs (fst (update env_ok ?v ?chg))
     = Some [(''bb'', JNum 2), (''ccc'', JNum 3), (''a'', JNum 5)]"
    unfolding u3 s3 by simp
  have H: "snd (update env_ok ?v ?chg)
     = Done [GetRecords ''myapp'' [''bb'', ''ccc''],
             Emit ''s1'' ''change''
               (ChangeData [Loaded ''unbase/records/myapp/bb'',
                            Loaded ''unbase/records/myapp/ccc''] 3)]"
    unfolding u3 s3 n3 by simp
  \<comment> \<open>a record stays and keeps its sort value\<close>
  let ?v2 = "view3 [(''s1'', sub_at ''s1'' 0 2), (''s2'', sub_at ''s2'' 2 1)]"
  let ?same = "state_of ''insert'' ''ccc'' True 3"
  have h4: "old_hit ?v2 ?same = Inr True \<and> new_hit env_ok ?v2 ?same = Inr True
              \<and> sort_by ?v2 \<noteq> ''_id'' \<and> ?res (state_id ?same) = Some 2 \<and> 2 < length pairs3"
    by (simp add: old_hit_def new_hit_def js_hasOwnProperty_def view3_def state_of_def
        env_ok_def pairs3_def)
  have c4: "\<not> \<not> js_loose_eq (toNumber env_ok) (js_get (sorters (idx_data ?same)) (sort_by ?v2))
                (snd (pairs3 ! 2))"
    by (simp add: state_of_def view3_def js_get_def pairs3_def)
  note u4 = update_insert_rule
    [where env = env_ok and i = 2, OF a1 a2 a3 a4, THEN conjunct2, THEN conjunct2,
     THEN conjunct1, THEN mp, OF h4, unfolded if_not_P [OF c4]]
  have w4: "window_ids pairs3 2 (Suc 0) = Inr [''ccc'']"
    by (simp add: window_ids_def pair_id_at_def upt_rec pairs3_def)
  have n4: "notifyVisible env_ok ?v2 2
       = Done [GetRecords ''myapp'' [''ccc''],
              Emit ''s2'' ''change'' (ChangeData [Loaded ''unbase/records/myapp/ccc''] 3)]"
    by (simp add: notifyVisible_def view3_def sub_at_def visible_to_def w4 mark_ids_def
        load_and_distribute_def Object_keys_eval getRecords_def env_ok_def copy_back_def slot_of_def)
       (simp add: pairs3_def)
  have I: "update env_ok ?v2 ?same
     = (?v2, Done [GetRecords ''myapp'' [''ccc''],
              Emit ''s2'' ''change'' (ChangeData [Loaded ''unbase/records/myapp/ccc''] 3)])"
    unfolding u4 n4 ..
  \<comment> \<open>who is notified\<close>
  have f: "sort_pairs ?v2 = Some pairs3 \<and> subs ?v2 \<noteq> []
             \<and> (\<forall>s \<in> set (map snd (subs ?v2)). window_fits pairs3 s)"
    by (simp add: view3_def window_fits_def sub_at_def pairs3_def)
  have wr: "window_records pairs3 (map snd (subs ?v2)) = {''a'', ''bb'', ''ccc''}"
    by (auto simp: window_records_def window_slice_def view3_def sub_at_def pairs3_def)
  have ik: "index_key ?v2 = ''myapp''" by (simp add: view3_def)
  have ids: "map sub_id (map snd (subs ?v2)) = [''s1'', ''s2'']"
    by (simp add: view3_def sub_at_def)
  note nc = update_insert_rule
    [where env = env_ok and u = ?v2 and ps = pairs3, OF a1 a2 a3 a4, THEN conjunct2,
     THEN conjunct2, THEN conjunct2, THEN conjunct2, THEN conjunct2, THEN conjunct2,
     THEN conjunct2, THEN conjunct1, THEN mp, OF f]
  note nf = update_insert_rule
    [where env = env_fail and u = ?v2 and ps = pairs3, OF a1 a2 a3 a4, THEN conjunct2,
     THEN conjunct2, THEN conjunct2, THEN conjunct2, THEN conjunct2, THEN conjunct2,
     THEN conjunct2, THEN conjunct1, THEN mp, OF f]
  have J: "\<exists>ids es. notifyChange env_ok ?v2 = Done (GetRecords ''myapp'' ids # es)
               \<and> set ids = {''a'', ''bb'', ''ccc''} \<and> change_targets es = [''s1'', ''s2'']"
  proof -
    from nc obtain ids where s: "set ids = {''a'', ''bb'', ''ccc''}"
      and c: "case getRecords env_ok ''myapp'' ids of
                Inl err \<Rightarrow>
                  notifyChange env_ok ?v2
                    = Done [GetRecords ''myapp'' ids,
                            LogError ''storage'' (''Failed to fetch records: '' @ err)]
              | Inr records \<Rightarrow>
                  (\<exists>es. notifyChange env_ok ?v2 = Done (GetRecords ''myapp'' ids # es)
                        \<and> length es = length (subs ?v2)
                        \<and> change_targets es = [''s1'', ''s2''])"
      unfolding wr ik ids by blast
    have "\<exists>records. getRecords env_ok ''myapp'' ids = Inr records"
      by (simp add: getRecords_def env_ok_def)
    with c s show ?thesis by auto
  qed
  have K: "\<exists>ids. notifyChange env_fail ?v2
                = Done [GetRecords ''myapp'' ids,
                        LogError ''storage'' ''Failed to fetch records: io'']"
  proof -
    from nf obtain ids where
      c: "case getRecords env_fail ''myapp'' ids of
                Inl err \<Rightarrow>
                  notifyChange env_fail ?v2
                    = Done [GetRecords ''myapp'' ids,
                            LogError ''storage'' (''Failed to fetch records: '' @ err)]
              | Inr records \<Rightarrow>
                  (\<exists>es. notifyChange env_fail ?v2 = Done (GetRecords ''myapp'' ids # es)
                        \<and> length es = length (subs ?v2)
                        \<and> change_targets es = [''s1'', ''s2''])"
      unfolding wr ik ids by blast
    have "getRecords env_fail ''myapp'' ids = Inl ''io''"
      by (simp add: getRecords_def env_fail_def env_ok_def)
    with c show ?thesis by auto
  qed
  have ch: "[] = filter (\<lambda>sub. offset sub \<le> 7 \<and> 7 < offset sub + limit sub)
                   (map snd (subs ?v2))"
    by (simp add: view3_def sub_at_def)
  note nv = update_insert_rule
    [where env = env_ok and v = ?v2 and i = 7 and chosen = "[]", OF a1 a2 a3 a4,
     THEN conjunct2, THEN conjunct2, THEN conjunct2, THEN conjunct2, THEN conjunct2,
     THEN conjunct2, THEN conjunct2, THEN conjunct2, THEN mp, OF ch, THEN conjunct1]
  have L: "notifyVisible env_ok ?v2 7 = Done []"
    using nv by simp
  from A B C D E F G H I J K L show ?thesis by blast
qed

subsection \<open>Outside the update rule\<close>

text \<open>
  Two ways in which \<open>update\<close> ends by an exception. A record id \<open>hasOwnProperty\<close>
  hides the method the view calls on its hashes: a matching record of that id is never
  added, and once \<open>results\<close> holds the key (from the initial search) every insert and
  delete throws with the view as it was. A window that reaches past the end of the
  resorted \<open>sort_pairs\<close> makes \<open>notifyChange\<close> throw after the record has been removed,
  so no subscriber is notified, not even one whose window fits.
\<close>

lemma update_hidden_method:
  "update env_ok (view3 [(''s1'', sub_at ''s1'' 0 2)])
       (state_of ''insert'' ''hasOwnProperty'' True 0)
     = (view3 [(''s1'', sub_at ''s1'' 0 2)], Thrown [] TypeError)"
  "results v = Some res \<Longrightarrow> res ''hasOwnProperty'' \<noteq> None
   \<Longrightarrow> action st = ''insert'' \<or> action st = ''delete''
   \<Longrightarrow> update env v st = (v, Thrown [] TypeError)"
  by (auto simp: update_def old_hit_def new_hit_def js_hasOwnProperty_def view3_def
      state_of_def env_ok_def)

lemma update_window_past_end:
  "sort_pairs (fst (update env_ok
                      (view3 [(''s1'', sub_at ''s1'' 0 2), (''s2'', sub_at ''s2'' 1 2)])
                      (state_of ''insert'' ''a'' False 1)))
     = Some [(''bb'', JNum 2), (''ccc'', JNum 3)]
   \<and> snd (update env_ok (view3 [(''s1'', sub_at ''s1'' 0 2), (''s2'', sub_at ''s2'' 1 2)])
             (state_of ''insert'' ''a'' False 1))
     = Thrown [] TypeError"
proof -
  let ?v = "view3 [(''s1'', sub_at ''s1'' 0 2), (''s2'', sub_at ''s2'' 1 2)]"
  let ?rem = "state_of ''insert'' ''a'' False 1"
  let ?res = "[''a'' \<mapsto> 0, ''bb'' \<mapsto> 1, ''ccc'' \<mapsto> 2] :: record_id \<rightharpoonup> nat"
  let ?sp = "[(''bb'', JNum 2), (''ccc'', JNum 3)]"
  have o: "old_hit ?v ?rem = Inr True"
    by (simp add: old_hit_def js_hasOwnProperty_def view3_def state_of_def)
  have n: "new_hit env_ok ?v ?rem = Inr False"
    by (simp add: new_hit_def js_hasOwnProperty_def state_of_def env_ok_def)
  have i: "action ?rem = ''insert''" by (simp add: state_of_def)
  have u: "update env_ok ?v ?rem = removeRecord env_ok ?v ?rem"
    unfolding update_def i o n by simp
  have a: "removeRecord env_ok ?v ?rem
       = resortAndNotify env_ok
           (?v\<lparr>results := Some (?res(''a'' := None)), sort_pairs := Some (splice1 pairs3 0)\<rparr>)"
    by (simp add: removeRecord_def Let_def view3_def state_of_def)
  have s: "js_sort cmp_key (splice1 pairs3 0) = ?sp"
    by (simp add: js_sort_def pairs3_def splice1_def cmp_key_def)
  have r: "resortAndNotify env_ok
             (?v\<lparr>results := Some R, sort_pairs := Some (splice1 pairs3 0)\<rparr>)
       = (?v\<lparr>results := Some (store_positions ?sp R), sort_pairs := Some ?sp\<rparr>,
          notifyChange env_ok
            (?v\<lparr>results := Some (store_positions ?sp R), sort_pairs := Some ?sp\<rparr>))" for R
    by (simp add: resortAndNotify_def Let_def s view3_def)
  have w: "window_ids ?sp 0 2 = Inr [''bb'', ''ccc'']"
    "window_ids ?sp (Suc 0) 2 = Inl TypeError"
    by (simp_all add: window_ids_def pair_id_at_def upt_rec)
  have k: "notifyChange env_ok (?v\<lparr>results := R, sort_pairs := Some ?sp\<rparr>)
       = Thrown [] TypeError" for R
    by (simp add: notifyChange_def view3_def sub_at_def w mark_ids_def)
  show ?thesis unfolding u a r k by simp
qed

text \<open>
  An answer that arrives after a write. The request was made for the window of \<open>s1\<close>
  over the three pairs \<open>a\<close>, \<open>bb\<close>, \<open>ccc\<close>; before the store answers, the record
  \<open>dddd\<close> enters in front. The callback reads the window from the array as it is now
  and the bodies from the map of the request: the first record of the event is
  \<open>undefined\<close>.
\<close>

lemma late_answer:
  "load_and_distribute env_ok ''myapp''
       [(''dddd'', JNum 0), (''a'', JNum 1), (''bb'', JNum 2), (''ccc'', JNum 3)]
       [(''a'', Marked), (''bb'', Marked)] [sub_at ''s1'' 0 2]
     = Done [GetRecords ''myapp'' [''a'', ''bb''],
             Emit ''s1'' ''change'' (ChangeData [Absent, Loaded ''unbase/records/myapp/a''] 4)]"
proof -
  have w: "window_ids [(''dddd'', JNum 0), (''a'', JNum 1), (''bb'', JNum 2), (''ccc'', JNum 3)]
             0 2 = Inr [''dddd'', ''a'']"
    by (simp add: window_ids_def pair_id_at_def upt_rec)
  show ?thesis
    by (simp add: load_and_distribute_def Object_keys_eval getRecords_def env_ok_def
        copy_back_def slot_of_def sub_at_def w)
qed

text \<open>The order of a request: record ids that are array indices come first.\<close>

lemma Object_keys_order:
  "Object_keys [(''b'', Marked), (''10'', Marked), (''2'', Marked), (''007'', Marked)]
     = [''2'', ''10'', ''b'', ''007'']"
  by (simp add: Object_keys_eval)

end
